theory Spec2Isabelle
  imports Main
begin

section \<open>Data model of \<open>ai_tic_tac_toe.py\<close>\<close>

text \<open>
  Cells and players are Python strings: \<open>' '\<close> is an empty cell, \<open>'X'\<close> the human and
  \<open>'O'\<close> the automated player.  The board is a list of rows.  A move is a pair
  \<open>(row, col)\<close>.
\<close>

type_synonym mark = string
type_synonym board = "mark list list"
type_synonym move = "nat \<times> nat"

definition BOARD_SIZE :: nat where
  "BOARD_SIZE = 3"

text \<open>
  Scores are Python numbers: the integers \<open>10 - depth\<close>, \<open>depth - 10\<close> and \<open>0\<close>, and the
  floats \<open>-math.inf\<close> and \<open>math.inf\<close> that initialise \<open>alpha\<close>, \<open>beta\<close>, \<open>max_eval\<close>
  and \<open>min_eval\<close>.
\<close>

datatype score = NegInf | Fin int | PosInf

fun score_le :: "score \<Rightarrow> score \<Rightarrow> bool" where
  "score_le NegInf _ = True"
| "score_le (Fin a) NegInf = False"
| "score_le (Fin a) (Fin b) = (a \<le> b)"
| "score_le (Fin a) PosInf = True"
| "score_le PosInf PosInf = True"
| "score_le PosInf _ = False"

instantiation score :: linorder
begin

definition less_eq_score :: "score \<Rightarrow> score \<Rightarrow> bool" where
  "less_eq_score a b = score_le a b"

definition less_score :: "score \<Rightarrow> score \<Rightarrow> bool" where
  "less_score a b = (score_le a b \<and> \<not> score_le b a)"

instance
proof
  fix x y z :: score
  show "(x < y) = (x \<le> y \<and> \<not> y \<le> x)"
    by (simp add: less_score_def less_eq_score_def)
  show "x \<le> x"
    by (cases x) (simp_all add: less_eq_score_def)
  show "x \<le> y \<Longrightarrow> y \<le> z \<Longrightarrow> x \<le> z"
    by (cases x; cases y; cases z) (simp_all add: less_eq_score_def)
  show "x \<le> y \<Longrightarrow> y \<le> x \<Longrightarrow> x = y"
    by (cases x; cases y) (simp_all add: less_eq_score_def)
  show "x \<le> y \<or> y \<le> x"
    by (cases x; cases y) (auto simp add: less_eq_score_def)
qed

end

text \<open>Exceptions of the Python run time and the two ways a call can end.\<close>

datatype py_error = IndexError

datatype 'a result = Raise py_error | Return 'a

text \<open>The attributes of a \<open>TicTacToe\<close> object.\<close>

record game =
  board :: board
  current_player :: mark
  game_over :: bool
  winner :: "mark option"
  last_ai_move :: "move option"
  moves_made :: int
  max_moves :: int
  player_wins :: int
  ai_wins :: int
  draws :: int
  nodes_explored :: int
  depth_reached :: int

definition empty_board :: board where
  "empty_board = replicate BOARD_SIZE (replicate BOARD_SIZE '' '')"

text \<open>\<open>TicTacToe.__init__\<close>\<close>

definition init_game :: game where
  "init_game =
     \<lparr> board = empty_board, current_player = ''X'', game_over = False, winner = None,
       last_ai_move = None, moves_made = 0, max_moves = int (BOARD_SIZE * BOARD_SIZE),
       player_wins = 0, ai_wins = 0, draws = 0, nodes_explored = 0, depth_reached = 0 \<rparr>"

text \<open>\<open>TicTacToe.reset_game\<close>\<close>

definition reset_game :: "game \<Rightarrow> game" where
  "reset_game g =
     g\<lparr> board := empty_board, current_player := ''X'', game_over := False, winner := None,
        last_ai_move := None, moves_made := 0, nodes_explored := 0, depth_reached := 0 \<rparr>"

text \<open>
  The class keeps the board a \<open>BOARD_SIZE \<times> BOARD_SIZE\<close> grid: \<open>__init__\<close> and
  \<open>reset_game\<close> build one and every other method only assigns to cells.
\<close>

definition wf_board :: "board \<Rightarrow> bool" where
  "wf_board b = (length b = BOARD_SIZE \<and> list_all (\<lambda>r. length r = BOARD_SIZE) b)"

text \<open>\<open>self.board[row][col] = v\<close> for indices that are in range.\<close>

definition set_cell :: "board \<Rightarrow> nat \<Rightarrow> nat \<Rightarrow> mark \<Rightarrow> board" where
  "set_cell b row col v = b[row := (b ! row)[col := v]]"

text \<open>
  Python's list indexing with a signed index: a negative index counts from the end,
  anything outside \<open>[-len, len)\<close> raises \<open>IndexError\<close>.
\<close>

definition py_index :: "'a list \<Rightarrow> int \<Rightarrow> nat result" where
  "py_index xs i =
     (let n = int (length xs)
      in if 0 \<le> i \<and> i < n then Return (nat i)
         else if - n \<le> i \<and> i < 0 then Return (nat (i + n))
         else Raise IndexError)"

text \<open>
  The position that a signed index in \<open>[-3, 3)\<close> addresses in a list of length
  \<open>BOARD_SIZE\<close>: Python counts a negative index from the end.
\<close>

definition wrap_index :: "int \<Rightarrow> nat" where
  "wrap_index i = nat (if i < 0 then i + int BOARD_SIZE else i)"


text \<open>\<open>TicTacToe.check_winner\<close>\<close>

definition check_winner :: "board \<Rightarrow> mark \<Rightarrow> bool" where
  "check_winner b player =
     (list_ex (\<lambda>i. list_all (\<lambda>j. b ! i ! j = player) [0..<BOARD_SIZE]
                 \<or> list_all (\<lambda>j. b ! j ! i = player) [0..<BOARD_SIZE]) [0..<BOARD_SIZE]
      \<or> list_all (\<lambda>i. b ! i ! i = player) [0..<BOARD_SIZE]
      \<or> list_all (\<lambda>i. b ! i ! (BOARD_SIZE - 1 - i) = player) [0..<BOARD_SIZE])"

text \<open>\<open>TicTacToe.get_empty_cells\<close>: row-major order.\<close>

definition get_empty_cells :: "board \<Rightarrow> move list" where
  "get_empty_cells b =
     concat (map (\<lambda>i. map (\<lambda>j. (i, j)) (filter (\<lambda>j. b ! i ! j = '' '') [0..<BOARD_SIZE]))
                 [0..<BOARD_SIZE])"

text \<open>\<open>TicTacToe.make_move\<close>.  The guard reads \<open>self.board[row][col]\<close> only when the game
  is not over; the read raises before anything is assigned.\<close>

definition make_move :: "game \<Rightarrow> int \<Rightarrow> int \<Rightarrow> mark \<Rightarrow> game \<times> bool result" where
  "make_move g row col player =
     (if game_over g then (g, Return False)
      else case py_index (board g) row of
        Raise e \<Rightarrow> (g, Raise e)
      | Return r \<Rightarrow>
          (case py_index (board g ! r) col of
             Raise e \<Rightarrow> (g, Raise e)
           | Return c \<Rightarrow>
               if board g ! r ! c \<noteq> '' '' then (g, Return False)
               else
                 let g1 = g\<lparr>board := set_cell (board g) r c player\<rparr>;
                     g2 = g1\<lparr>moves_made := moves_made g1 + 1\<rparr>;
                     g3 = (if check_winner (board g2) player then
                             (let g' = g2\<lparr>game_over := True, winner := Some player\<rparr>
                              in if player = ''X''
                                 then g'\<lparr>player_wins := player_wins g' + 1\<rparr>
                                 else g'\<lparr>ai_wins := ai_wins g' + 1\<rparr>)
                           else if moves_made g2 = max_moves g2 then
                             g2\<lparr>game_over := True, draws := draws g2 + 1\<rparr>
                           else g2)
                 in (g3\<lparr>current_player := (if player = ''X'' then ''O'' else ''X'')\<rparr>,
                     Return True)))"

text \<open>\<open>TicTacToe.is_valid_move\<close>: \<open>and\<close> evaluates the cell only for coordinates in range.\<close>

definition is_valid_move :: "game \<Rightarrow> int \<Rightarrow> int \<Rightarrow> bool" where
  "is_valid_move g row col =
     (if 0 \<le> row \<and> row < int BOARD_SIZE \<and> 0 \<le> col \<and> col < int BOARD_SIZE
      then board g ! nat row ! nat col = '' '' else False)"

text \<open>
  \<open>TicTacToe.minimax\<close>.  The recursion of the method is bounded here by a fuel argument
  (\<open>None\<close>: fuel exhausted); each call of the method consumes one unit.  The two
  \<open>for\<close> loops are \<open>max_loop\<close> and \<open>min_loop\<close>: they run over the list of empty cells
  computed before the loop, place the mark, recurse, clear the cell, update the running
  best and \<open>alpha\<close>/\<open>beta\<close>, and \<open>break\<close> when \<open>beta <= alpha\<close>.
\<close>

function (sequential) minimax :: "nat \<Rightarrow> game \<Rightarrow> int \<Rightarrow> bool \<Rightarrow> score \<Rightarrow> score
                  \<Rightarrow> (game \<times> score \<times> move option) option"
  and max_loop :: "nat \<Rightarrow> game \<Rightarrow> int \<Rightarrow> move list \<Rightarrow> score \<Rightarrow> move option \<Rightarrow> score \<Rightarrow> score
                  \<Rightarrow> (game \<times> score \<times> move option) option"
  and min_loop :: "nat \<Rightarrow> game \<Rightarrow> int \<Rightarrow> move list \<Rightarrow> score \<Rightarrow> move option \<Rightarrow> score \<Rightarrow> score
                  \<Rightarrow> (game \<times> score \<times> move option) option"
where
  "minimax 0 g depth is_maximizing alpha beta = None"
| "minimax (Suc n) g depth is_maximizing alpha beta =
     (let g1 = g\<lparr>nodes_explored := nodes_explored g + 1\<rparr>;
          g2 = g1\<lparr>depth_reached := max (depth_reached g1) depth\<rparr>
      in if check_winner (board g2) ''O'' then Some (g2, Fin (10 - depth), None)
         else if check_winner (board g2) ''X'' then Some (g2, Fin (depth - 10), None)
         else if get_empty_cells (board g2) = [] then Some (g2, Fin 0, None)
         else if is_maximizing
           then max_loop n g2 depth (get_empty_cells (board g2)) NegInf None alpha beta
           else min_loop n g2 depth (get_empty_cells (board g2)) PosInf None alpha beta)"
| "max_loop n g depth [] max_eval best_move alpha beta = Some (g, max_eval, best_move)"
| "max_loop n g depth ((row, col) # cells) max_eval best_move alpha beta =
     (case minimax n (g\<lparr>board := set_cell (board g) row col ''O''\<rparr>) (depth + 1) False alpha beta of
        None \<Rightarrow> None
      | Some (g', eval_score, _) \<Rightarrow>
          let g'' = g'\<lparr>board := set_cell (board g') row col '' ''\<rparr>;
              max_eval' = (if eval_score > max_eval then eval_score else max_eval);
              best_move' = (if eval_score > max_eval then Some (row, col) else best_move);
              alpha' = max alpha eval_score
          in if beta \<le> alpha' then Some (g'', max_eval', best_move')
             else max_loop n g'' depth cells max_eval' best_move' alpha' beta)"
| "min_loop n g depth [] min_eval best_move alpha beta = Some (g, min_eval, best_move)"
| "min_loop n g depth ((row, col) # cells) min_eval best_move alpha beta =
     (case minimax n (g\<lparr>board := set_cell (board g) row col ''X''\<rparr>) (depth + 1) True alpha beta of
        None \<Rightarrow> None
      | Some (g', eval_score, _) \<Rightarrow>
          let g'' = g'\<lparr>board := set_cell (board g') row col '' ''\<rparr>;
              min_eval' = (if eval_score < min_eval then eval_score else min_eval);
              best_move' = (if eval_score < min_eval then Some (row, col) else best_move);
              beta' = min beta eval_score
          in if beta' \<le> alpha then Some (g'', min_eval', best_move')
             else min_loop n g'' depth cells min_eval' best_move' alpha beta')"
  by pat_completeness auto

termination
  by (relation "inv_image (less_than <*lex*> less_than) (\<lambda>x. case x of
          Inl (n, _) \<Rightarrow> (n, 0)
        | Inr (Inl (n, _, _, cells, _)) \<Rightarrow> (n, Suc (length cells))
        | Inr (Inr (n, _, _, cells, _)) \<Rightarrow> (n, Suc (length cells)))") auto


text \<open>
  \<open>TicTacToe.get_ai_move\<close>: the search is started with \<open>minimax(0, True)\<close>; when it
  yields no move the method falls back to the first empty cell, and
  \<open>self.get_empty_cells()[0]\<close> raises on an empty list.
\<close>

definition get_ai_move :: "nat \<Rightarrow> game \<Rightarrow> (game \<times> move result) option" where
  "get_ai_move fuel g =
     (case minimax fuel g 0 True NegInf PosInf of
        None \<Rightarrow> None
      | Some (g', _, move) \<Rightarrow>
          (case move of
             None \<Rightarrow>
               (case get_empty_cells (board g') of
                  [] \<Rightarrow> Some (g', Raise IndexError)
                | cell # _ \<Rightarrow> Some (g', Return cell))
           | Some mv \<Rightarrow> Some (g', Return mv)))"

section \<open>The search as a function of the board\<close>

text \<open>
  The score and move that \<open>minimax\<close> returns depend on the board only.  \<open>alphabeta\<close>
  is the same search with the board passed by value and without the instrumentation
  counters; \<open>minimax_refines\<close> below relates the two.
\<close>

function (sequential) alphabeta :: "nat \<Rightarrow> board \<Rightarrow> int \<Rightarrow> bool \<Rightarrow> score \<Rightarrow> score \<Rightarrow> (score \<times> move option) option"
  and alphabeta_max :: "nat \<Rightarrow> board \<Rightarrow> int \<Rightarrow> move list \<Rightarrow> score \<Rightarrow> move option \<Rightarrow> score \<Rightarrow> score \<Rightarrow> (score \<times> move option) option"
  and alphabeta_min :: "nat \<Rightarrow> board \<Rightarrow> int \<Rightarrow> move list \<Rightarrow> score \<Rightarrow> move option \<Rightarrow> score \<Rightarrow> score \<Rightarrow> (score \<times> move option) option"
where
  "alphabeta 0 b depth is_maximizing alpha beta = None"
| "alphabeta (Suc n) b depth is_maximizing alpha beta =
     (if check_winner b ''O'' then Some (Fin (10 - depth), None)
      else if check_winner b ''X'' then Some (Fin (depth - 10), None)
      else if get_empty_cells b = [] then Some (Fin 0, None)
      else if is_maximizing
        then alphabeta_max n b depth (get_empty_cells b) NegInf None alpha beta
        else alphabeta_min n b depth (get_empty_cells b) PosInf None alpha beta)"
| "alphabeta_max n b depth [] max_eval best_move alpha beta = Some (max_eval, best_move)"
| "alphabeta_max n b depth ((row, col) # cells) max_eval best_move alpha beta =
     (case alphabeta n (set_cell b row col ''O'') (depth + 1) False alpha beta of
        None \<Rightarrow> None
      | Some (eval_score, _) \<Rightarrow>
          if beta \<le> max alpha eval_score
          then Some ((if eval_score > max_eval then eval_score else max_eval),
                     (if eval_score > max_eval then Some (row, col) else best_move))
          else alphabeta_max n b depth cells (if eval_score > max_eval then eval_score else max_eval)
                 (if eval_score > max_eval then Some (row, col) else best_move)
                 (max alpha eval_score) beta)"
| "alphabeta_min n b depth [] min_eval best_move alpha beta = Some (min_eval, best_move)"
| "alphabeta_min n b depth ((row, col) # cells) min_eval best_move alpha beta =
     (case alphabeta n (set_cell b row col ''X'') (depth + 1) True alpha beta of
        None \<Rightarrow> None
      | Some (eval_score, _) \<Rightarrow>
          if min beta eval_score \<le> alpha
          then Some ((if eval_score < min_eval then eval_score else min_eval),
                     (if eval_score < min_eval then Some (row, col) else best_move))
          else alphabeta_min n b depth cells (if eval_score < min_eval then eval_score else min_eval)
                 (if eval_score < min_eval then Some (row, col) else best_move)
                 alpha (min beta eval_score))"
  by pat_completeness auto

termination
  by (relation "inv_image (less_than <*lex*> less_than) (\<lambda>x. case x of
          Inl (n, _) \<Rightarrow> (n, 0)
        | Inr (Inl (n, _, _, cells, _)) \<Rightarrow> (n, Suc (length cells))
        | Inr (Inr (n, _, _, cells, _)) \<Rightarrow> (n, Suc (length cells)))") auto

text \<open>
  Two game states that differ at most in the instrumentation counters, and the relation
  between a result of \<open>minimax\<close> started in \<open>g\<close> and a result of \<open>alphabeta\<close>.
\<close>

definition same_but_counters :: "game \<Rightarrow> game \<Rightarrow> bool" where
  "same_but_counters g g' =
     (g' = g\<lparr>nodes_explored := nodes_explored g', depth_reached := depth_reached g'\<rparr>)"

definition refines :: "game \<Rightarrow> (game \<times> score \<times> move option) option \<Rightarrow> (score \<times> move option) option \<Rightarrow> bool" where
  "refines g x y = (case x of None \<Rightarrow> y = None
                    | Some (g', r) \<Rightarrow> y = Some r \<and> same_but_counters g g')"


text \<open>
  The calls of \<open>minimax\<close> that one search makes, as the list of their depths in the
  order of the calls: the call itself, then, unless the position is terminal, the calls
  made for the empty cells in row-major order, up to the cell at which the loop breaks.
  \<open>counted g ds g'\<close>: from \<open>g\<close> to \<open>g'\<close> the node counter has gone up by one for each
  call of \<open>ds\<close>, and the depth maximum has been raised by each of their depths in turn.
\<close>

function (sequential) visited :: "nat \<Rightarrow> board \<Rightarrow> int \<Rightarrow> bool \<Rightarrow> score \<Rightarrow> score \<Rightarrow> int list"
  and visited_max :: "nat \<Rightarrow> board \<Rightarrow> int \<Rightarrow> move list \<Rightarrow> score \<Rightarrow> score \<Rightarrow> int list"
  and visited_min :: "nat \<Rightarrow> board \<Rightarrow> int \<Rightarrow> move list \<Rightarrow> score \<Rightarrow> score \<Rightarrow> int list"
where
  "visited 0 b depth is_maximizing alpha beta = []"
| "visited (Suc n) b depth is_maximizing alpha beta =
     depth # (if check_winner b ''O'' \<or> check_winner b ''X'' \<or> get_empty_cells b = [] then []
              else if is_maximizing then visited_max n b depth (get_empty_cells b) alpha beta
              else visited_min n b depth (get_empty_cells b) alpha beta)"
| "visited_max n b depth [] alpha beta = []"
| "visited_max n b depth ((row, col) # cells) alpha beta =
     visited n (set_cell b row col ''O'') (depth + 1) False alpha beta
     @ (case alphabeta n (set_cell b row col ''O'') (depth + 1) False alpha beta of
          None \<Rightarrow> []
        | Some (eval_score, _) \<Rightarrow>
            if beta \<le> max alpha eval_score then []
            else visited_max n b depth cells (max alpha eval_score) beta)"
| "visited_min n b depth [] alpha beta = []"
| "visited_min n b depth ((row, col) # cells) alpha beta =
     visited n (set_cell b row col ''X'') (depth + 1) True alpha beta
     @ (case alphabeta n (set_cell b row col ''X'') (depth + 1) True alpha beta of
          None \<Rightarrow> []
        | Some (eval_score, _) \<Rightarrow>
            if min beta eval_score \<le> alpha then []
            else visited_min n b depth cells alpha (min beta eval_score))"
  by pat_completeness auto

termination
  by (relation "inv_image (less_than <*lex*> less_than) (\<lambda>x. case x of
          Inl (n, _) \<Rightarrow> (n, 0)
        | Inr (Inl (n, _, _, cells, _)) \<Rightarrow> (n, Suc (length cells))
        | Inr (Inr (n, _, _, cells, _)) \<Rightarrow> (n, Suc (length cells)))") auto

definition counted :: "game \<Rightarrow> int list \<Rightarrow> game \<Rightarrow> bool" where
  "counted g ds g' =
     (nodes_explored g' = nodes_explored g + int (length ds)
      \<and> depth_reached g' = fold max ds (depth_reached g))"


text \<open>Raising the counters of a state by \<open>a\<close> nodes and to depth at least \<open>e\<close>.\<close>

definition shift :: "int \<Rightarrow> int \<Rightarrow> game \<Rightarrow> game" where
  "shift a e g = g\<lparr>nodes_explored := nodes_explored g + a, depth_reached := max (depth_reached g) e\<rparr>"

definition shift_result :: "int \<Rightarrow> int \<Rightarrow> (game \<times> score \<times> move option) option
    \<Rightarrow> (game \<times> score \<times> move option) option" where
  "shift_result a e x = (case x of None \<Rightarrow> None | Some (g', r) \<Rightarrow> Some (shift a e g', r))"


text \<open>
  Plain exhaustive minimax, as the specification words it: every empty cell is tried in
  row-major order, the running best is replaced only on a strictly better score, and no
  branch is cut off.  The terminal scores are those of the search.
\<close>

function (sequential) plain_minimax :: "nat \<Rightarrow> board \<Rightarrow> int \<Rightarrow> bool \<Rightarrow> (score \<times> move option) option"
  and plain_max :: "nat \<Rightarrow> board \<Rightarrow> int \<Rightarrow> move list \<Rightarrow> score \<Rightarrow> move option \<Rightarrow> (score \<times> move option) option"
  and plain_min :: "nat \<Rightarrow> board \<Rightarrow> int \<Rightarrow> move list \<Rightarrow> score \<Rightarrow> move option \<Rightarrow> (score \<times> move option) option"
where
  "plain_minimax 0 b depth is_maximizing = None"
| "plain_minimax (Suc n) b depth is_maximizing =
     (if check_winner b ''O'' then Some (Fin (10 - depth), None)
      else if check_winner b ''X'' then Some (Fin (depth - 10), None)
      else if get_empty_cells b = [] then Some (Fin 0, None)
      else if is_maximizing
        then plain_max n b depth (get_empty_cells b) NegInf None
        else plain_min n b depth (get_empty_cells b) PosInf None)"
| "plain_max n b depth [] max_eval best_move = Some (max_eval, best_move)"
| "plain_max n b depth ((row, col) # cells) max_eval best_move =
     (case plain_minimax n (set_cell b row col ''O'') (depth + 1) False of
        None \<Rightarrow> None
      | Some (eval_score, _) \<Rightarrow>
          plain_max n b depth cells (if eval_score > max_eval then eval_score else max_eval)
            (if eval_score > max_eval then Some (row, col) else best_move))"
| "plain_min n b depth [] min_eval best_move = Some (min_eval, best_move)"
| "plain_min n b depth ((row, col) # cells) min_eval best_move =
     (case plain_minimax n (set_cell b row col ''X'') (depth + 1) True of
        None \<Rightarrow> None
      | Some (eval_score, _) \<Rightarrow>
          plain_min n b depth cells (if eval_score < min_eval then eval_score else min_eval)
            (if eval_score < min_eval then Some (row, col) else best_move))"
  by pat_completeness auto

termination
  by (relation "inv_image (less_than <*lex*> less_than) (\<lambda>x. case x of
          Inl (n, _) \<Rightarrow> (n, 0)
        | Inr (Inl (n, _, _, cells, _)) \<Rightarrow> (n, Suc (length cells))
        | Inr (Inr (n, _, _, cells, _)) \<Rightarrow> (n, Suc (length cells)))") auto


text \<open>
  How a search with window \<open>(alpha, beta)\<close> may differ from the plain result \<open>p\<close>: it
  is exact inside the window and stays on the same side outside.
\<close>

definition agrees :: "score \<Rightarrow> score \<Rightarrow> score \<times> move option \<Rightarrow> score \<times> move option \<Rightarrow> bool" where
  "agrees alpha beta p a =
     ((fst p \<le> alpha \<longrightarrow> fst a \<le> alpha) \<and> (beta \<le> fst p \<longrightarrow> beta \<le> fst a)
      \<and> (alpha < fst p \<and> fst p < beta \<longrightarrow> a = p))"


text \<open>A 3-by-3 board written cell by cell, and the number of empty cells of a mark.\<close>

definition grid :: "mark \<Rightarrow> mark \<Rightarrow> mark \<Rightarrow> mark \<Rightarrow> mark \<Rightarrow> mark \<Rightarrow> mark \<Rightarrow> mark \<Rightarrow> mark \<Rightarrow> board" where
  "grid a b c d e f g h i = [[a, b, c], [d, e, f], [g, h, i]]"

definition blank :: "mark \<Rightarrow> nat" where
  "blank x = (if x = '' '' then 1 else 0)"


section \<open>Self-play\<close>

text \<open>
  The experiment of the specification: starting from a game state, as long as the game
  is not over the player to move plays the move that \<open>minimax\<close> returns for it,
  \<open>minimax(0, False)\<close> for \<open>'X'\<close> and \<open>minimax(0, True)\<close> for \<open>'O'\<close>, applied with
  \<open>make_move\<close>.  \<open>turns\<close> bounds the number of turns and \<open>fuel\<close> each search; \<open>None\<close>
  is a bound reached, a search without a move or a rejected move.
\<close>

fun self_play :: "nat \<Rightarrow> nat \<Rightarrow> game \<Rightarrow> game option" where
  "self_play 0 fuel g = None"
| "self_play (Suc turns) fuel g =
     (if game_over g then Some g
      else case minimax fuel g 0 (current_player g = ''O'') NegInf PosInf of
             None \<Rightarrow> None
           | Some (g', _, move) \<Rightarrow>
               (case move of
                  None \<Rightarrow> None
                | Some (row, col) \<Rightarrow>
                    (case make_move g' (int row) (int col) (current_player g) of
                       (g'', Return True) \<Rightarrow> self_play turns fuel g''
                     | _ \<Rightarrow> None)))"

text \<open>A game in progress with no win or draw recorded so far.\<close>

definition playing :: "board \<Rightarrow> mark \<Rightarrow> int \<Rightarrow> int \<Rightarrow> int \<Rightarrow> game" where
  "playing b p mm k e =
     \<lparr> board = b, current_player = p, game_over = False, winner = None,
       last_ai_move = None, moves_made = mm, max_moves = 9,
       player_wins = 0, ai_wins = 0, draws = 0, nodes_explored = k, depth_reached = e \<rparr>"


section \<open>Names for evaluating the search on concrete boards\<close>

text \<open>
  The three marks and the nine cells as constants, a line test that stops at the first
  mismatch, and the step of each loop after the recursive call has returned.
\<close>

definition mE :: mark where "mE = '' ''"
definition mX :: mark where "mX = ''X''"
definition mO :: mark where "mO = ''O''"

definition line3 :: "mark \<Rightarrow> mark \<Rightarrow> mark \<Rightarrow> mark \<Rightarrow> bool" where
  "line3 p a b c = (if a = p then (if b = p then c = p else False) else False)"

definition c00 :: move where "c00 = (0, 0)"
definition c01 :: move where "c01 = (0, 1)"
definition c02 :: move where "c02 = (0, 2)"
definition c10 :: move where "c10 = (1, 0)"
definition c11 :: move where "c11 = (1, 1)"
definition c12 :: move where "c12 = (1, 2)"
definition c20 :: move where "c20 = (2, 0)"
definition c21 :: move where "c21 = (2, 1)"
definition c22 :: move where "c22 = (2, 2)"

definition max_next :: "nat \<Rightarrow> board \<Rightarrow> int \<Rightarrow> move list \<Rightarrow> move \<Rightarrow> score \<Rightarrow> move option \<Rightarrow> score \<Rightarrow> score
    \<Rightarrow> (score \<times> move option) option \<Rightarrow> (score \<times> move option) option" where
  "max_next n b depth cells mv max_eval best_move alpha beta r =
     (case r of None \<Rightarrow> None
      | Some (eval_score, m) \<Rightarrow>
          if beta \<le> max alpha eval_score
          then Some ((if eval_score > max_eval then eval_score else max_eval),
                     (if eval_score > max_eval then Some mv else best_move))
          else alphabeta_max n b depth cells (if eval_score > max_eval then eval_score else max_eval)
                 (if eval_score > max_eval then Some mv else best_move)
                 (max alpha eval_score) beta)"

definition min_next :: "nat \<Rightarrow> board \<Rightarrow> int \<Rightarrow> move list \<Rightarrow> move \<Rightarrow> score \<Rightarrow> move option \<Rightarrow> score \<Rightarrow> score
    \<Rightarrow> (score \<times> move option) option \<Rightarrow> (score \<times> move option) option" where
  "min_next n b depth cells mv min_eval best_move alpha beta r =
     (case r of None \<Rightarrow> None
      | Some (eval_score, m) \<Rightarrow>
          if min beta eval_score \<le> alpha
          then Some ((if eval_score < min_eval then eval_score else min_eval),
                     (if eval_score < min_eval then Some mv else best_move))
          else alphabeta_min n b depth cells (if eval_score < min_eval then eval_score else min_eval)
                 (if eval_score < min_eval then Some mv else best_move)
                 alpha (min beta eval_score))"


section \<open>Moves: \<open>make_move\<close>, \<open>is_valid_move\<close>, \<open>reset_game\<close>\<close>

lemma py_index_in_range:
  "0 \<le> i \<Longrightarrow> i < int (length xs) \<Longrightarrow> py_index xs i = Return (nat i)"
  by (simp add: py_index_def)

lemma py_index_negative:
  "- int (length xs) \<le> i \<Longrightarrow> i < 0 \<Longrightarrow> py_index xs i = Return (nat (i + int (length xs)))"
  by (simp add: py_index_def)

lemma py_index_outside:
  "i < - int (length xs) \<or> int (length xs) \<le> i \<Longrightarrow> py_index xs i = Raise IndexError"
  by (auto simp add: py_index_def)

lemma wf_board_length: "wf_board b \<Longrightarrow> length b = 3"
  by (simp add: wf_board_def BOARD_SIZE_def)

lemma wf_board_row_length: "wf_board b \<Longrightarrow> r < 3 \<Longrightarrow> length (b ! r) = 3"
  by (simp add: wf_board_def BOARD_SIZE_def list_all_length)

lemma wf_empty_board: "wf_board empty_board"
  by (simp add: wf_board_def empty_board_def BOARD_SIZE_def list_all_iff)

lemma empty_board_eq:
  "empty_board = [['' '', '' '', '' ''], ['' '', '' '', '' ''], ['' '', '' '', '' '']]"
  by (simp add: empty_board_def BOARD_SIZE_def numeral_3_eq_3)

lemma make_move_game_over: "game_over g \<Longrightarrow> make_move g row col player = (g, Return False)"
  by (simp add: make_move_def)

lemma make_move_occupied:
  assumes "wf_board (board g)" "0 \<le> row" "row < 3" "0 \<le> col" "col < 3"
    and "board g ! nat row ! nat col \<noteq> '' ''"
  shows "make_move g row col player = (g, Return False)"
proof -
  have r: "py_index (board g) row = Return (nat row)"
    using assms by (simp add: py_index_in_range wf_board_length)
  have "nat row < 3" using assms by simp
  then have "length (board g ! nat row) = 3"
    using assms(1) by (rule wf_board_row_length[rotated])
  then have c: "py_index (board g ! nat row) col = Return (nat col)"
    using assms by (simp add: py_index_in_range)
  show ?thesis using assms(6) by (simp add: make_move_def r c)
qed

lemma make_move_outside:
  assumes "wf_board (board g)" "\<not> game_over g"
    and "row < - 3 \<or> 3 \<le> row \<or> col < - 3 \<or> 3 \<le> col"
  shows "make_move g row col player = (g, Raise IndexError)"
proof (cases "row < - 3 \<or> 3 \<le> row")
  case True
  then have "py_index (board g) row = Raise IndexError"
    using assms(1) by (intro py_index_outside) (simp add: wf_board_length)
  then show ?thesis using assms(2) by (simp add: make_move_def)
next
  case False
  then have col: "col < - 3 \<or> 3 \<le> col" using assms(3) by blast
  obtain r where r: "py_index (board g) row = Return r" and "r < 3"
    using False assms(1) by (cases "0 \<le> row") (auto simp add: py_index_def wf_board_length)
  then have "length (board g ! r) = 3"
    using assms(1) by (simp add: wf_board_row_length)
  then have "py_index (board g ! r) col = Raise IndexError"
    using col by (intro py_index_outside) simp
  then show ?thesis using assms(2) r by (simp add: make_move_def)
qed

lemma make_move_success_fields:
  assumes "make_move g row col player = (g', Return True)"
  shows "current_player g' = (if player = ''X'' then ''O'' else ''X'')"
    and "game_over g' = (check_winner (board g') player \<or> moves_made g' = max_moves g')"
    and "moves_made g' = moves_made g + 1"
    and "nodes_explored g' = nodes_explored g"
    and "depth_reached g' = depth_reached g"
    and "\<not> game_over g"
  using assms
  by (auto simp add: make_move_def Let_def split: if_splits result.splits)

lemma make_move_counters:
  "make_move g row col player = (g', r) \<Longrightarrow>
     nodes_explored g' = nodes_explored g \<and> depth_reached g' = depth_reached g"
  by (auto simp add: make_move_def Let_def split: if_splits result.splits)

lemma make_move_wraps:
  assumes "wf_board (board g)" "\<not> game_over g" "- 3 \<le> row" "row < 0" "- 3 \<le> col" "col < 0"
    and "board g ! nat (row + 3) ! nat (col + 3) = '' ''"
  shows "\<exists>g'. make_move g row col player = (g', Return True)
           \<and> board g' = set_cell (board g) (nat (row + 3)) (nat (col + 3)) player"
proof -
  have r: "py_index (board g) row = Return (nat (row + 3))"
    using assms by (simp add: py_index_negative wf_board_length)
  have "nat (row + 3) < 3" using assms by simp
  then have "length (board g ! nat (row + 3)) = 3"
    using assms(1) by (rule wf_board_row_length[rotated])
  then have c: "py_index (board g ! nat (row + 3)) col = Return (nat (col + 3))"
    using assms by (simp add: py_index_negative)
  show ?thesis using assms(2,7) by (simp add: make_move_def r c Let_def)
qed

lemma is_valid_move_negative: "row < 0 \<or> col < 0 \<Longrightarrow> \<not> is_valid_move g row col"
  by (auto simp add: is_valid_move_def)


section \<open>Claims about \<open>make_move\<close> and \<open>reset_game\<close>\<close>

text \<open>
  C3 (as stated: every call with coordinates outside \<open>[0,3) \<times> [0,3)\<close> or on an occupied
  cell returns \<open>False\<close> and changes nothing).  \<open>make_move\<close> has no range check of its own:
  on the fresh game the call \<open>make_move(-1, -1, 'X')\<close> returns \<open>True\<close> and marks the
  cell \<open>(2, 2)\<close>, and \<open>make_move(3, 0, 'X')\<close> raises \<open>IndexError\<close> instead of returning
  \<open>False\<close>.
\<close>

theorem make_move_out_of_range_counterexample:
  "\<not> (0 \<le> (- 1 :: int))
   \<and> snd (make_move init_game (- 1) (- 1) ''X'') = Return True
   \<and> board (fst (make_move init_game (- 1) (- 1) ''X''))
       = [['' '', '' '', '' ''], ['' '', '' '', '' ''], ['' '', '' '', ''X'']]
   \<and> moves_made (fst (make_move init_game (- 1) (- 1) ''X'')) = 1
   \<and> make_move init_game 3 0 ''X'' = (init_game, Raise IndexError)"
  by code_simp

text \<open>
  C3 (amended): on a 3-by-3 board, \<open>make_move(row, col, mark)\<close> returns \<open>False\<close> and
  leaves the whole game state (board, move count, outcome, tallies) unchanged whenever
  the game is already over, and whenever \<open>row\<close> and \<open>col\<close> lie in \<open>[-3, 3)\<close> and the
  cell they address, a negative index counting from the end, is occupied; this covers
  every call in \<open>[0,3) \<times> [0,3)\<close> on an occupied cell.  On a game that is not over, a
  call with a coordinate outside \<open>[-3, 3)\<close> raises \<open>IndexError\<close> and leaves the whole
  state unchanged, and a call with \<open>row\<close> and \<open>col\<close> in \<open>[-3, 3)\<close> whose addressed cell
  is empty is accepted, also when a coordinate is negative: it returns \<open>True\<close>, places
  the mark at the addressed cell and counts the move.
\<close>

lemma py_index_wrap:
  "length xs = 3 \<Longrightarrow> - 3 \<le> i \<Longrightarrow> i < 3 \<Longrightarrow> py_index xs i = Return (wrap_index i)"
  by (simp add: py_index_def wrap_index_def BOARD_SIZE_def)

lemma wrap_index_less: "- 3 \<le> i \<Longrightarrow> i < 3 \<Longrightarrow> wrap_index i < 3"
  by (auto simp add: wrap_index_def BOARD_SIZE_def)

lemma wrap_index_nonneg: "0 \<le> i \<Longrightarrow> wrap_index i = nat i"
  by (simp add: wrap_index_def)

lemma make_move_addressed:
  assumes "wf_board (board g)" "\<not> game_over g" "- 3 \<le> row" "row < 3" "- 3 \<le> col" "col < 3"
  shows "board g ! wrap_index row ! wrap_index col \<noteq> '' '' \<Longrightarrow>
           make_move g row col player = (g, Return False)"
    and "board g ! wrap_index row ! wrap_index col = '' '' \<Longrightarrow>
           \<exists>g'. make_move g row col player = (g', Return True)
             \<and> board g' = set_cell (board g) (wrap_index row) (wrap_index col) player
             \<and> moves_made g' = moves_made g + 1"
proof -
  have r: "py_index (board g) row = Return (wrap_index row)"
    using assms by (simp add: py_index_wrap wf_board_length)
  have "wrap_index row < 3" using assms by (simp add: wrap_index_less)
  then have "length (board g ! wrap_index row) = 3"
    using assms(1) by (rule wf_board_row_length[rotated])
  then have c: "py_index (board g ! wrap_index row) col = Return (wrap_index col)"
    using assms by (simp add: py_index_wrap)
  show "board g ! wrap_index row ! wrap_index col \<noteq> '' '' \<Longrightarrow>
           make_move g row col player = (g, Return False)"
    using assms(2) by (simp add: make_move_def r c)
  show "board g ! wrap_index row ! wrap_index col = '' '' \<Longrightarrow>
           \<exists>g'. make_move g row col player = (g', Return True)
             \<and> board g' = set_cell (board g) (wrap_index row) (wrap_index col) player
             \<and> moves_made g' = moves_made g + 1"
    using assms(2) by (simp add: make_move_def r c Let_def)
qed

theorem make_move_rejected_unchanged:
  assumes "wf_board (board g)"
  shows "(0 \<le> row \<and> row < 3 \<and> 0 \<le> col \<and> col < 3 \<and> board g ! nat row ! nat col \<noteq> '' ''
            \<longrightarrow> make_move g row col player = (g, Return False))
       \<and> (row < - 3 \<or> 3 \<le> row \<or> col < - 3 \<or> 3 \<le> col
            \<longrightarrow> make_move g row col player
                  = (g, if game_over g then Return False else Raise IndexError))
       \<and> (game_over g \<longrightarrow> make_move g row col player = (g, Return False))
       \<and> (- 3 \<le> row \<and> row < 3 \<and> - 3 \<le> col \<and> col < 3
            \<and> board g ! wrap_index row ! wrap_index col \<noteq> '' ''
            \<longrightarrow> make_move g row col player = (g, Return False))
       \<and> (\<not> game_over g \<and> - 3 \<le> row \<and> row < 3 \<and> - 3 \<le> col \<and> col < 3
            \<and> board g ! wrap_index row ! wrap_index col = '' ''
            \<longrightarrow> (\<exists>g'. make_move g row col player = (g', Return True)
                   \<and> board g' = set_cell (board g) (wrap_index row) (wrap_index col) player
                   \<and> moves_made g' = moves_made g + 1))"
proof (intro conjI impI)
  assume "0 \<le> row \<and> row < 3 \<and> 0 \<le> col \<and> col < 3 \<and> board g ! nat row ! nat col \<noteq> '' ''"
  then show "make_move g row col player = (g, Return False)"
    using assms by (simp add: make_move_occupied)
next
  assume out: "row < - 3 \<or> 3 \<le> row \<or> col < - 3 \<or> 3 \<le> col"
  show "make_move g row col player = (g, if game_over g then Return False else Raise IndexError)"
  proof (cases "game_over g")
    case True
    then show ?thesis by (simp add: make_move_game_over)
  next
    case False
    then show ?thesis using assms out by (simp add: make_move_outside)
  qed
next
  assume "game_over g"
  then show "make_move g row col player = (g, Return False)"
    by (rule make_move_game_over)
next
  assume a: "- 3 \<le> row \<and> row < 3 \<and> - 3 \<le> col \<and> col < 3
            \<and> board g ! wrap_index row ! wrap_index col \<noteq> '' ''"
  show "make_move g row col player = (g, Return False)"
  proof (cases "game_over g")
    case True
    then show ?thesis by (rule make_move_game_over)
  next
    case False
    then show ?thesis using make_move_addressed(1)[OF assms False, of row col player] a by simp
  qed
next
  assume a: "\<not> game_over g \<and> - 3 \<le> row \<and> row < 3 \<and> - 3 \<le> col \<and> col < 3
            \<and> board g ! wrap_index row ! wrap_index col = '' ''"
  then show "\<exists>g'. make_move g row col player = (g', Return True)
                   \<and> board g' = set_cell (board g) (wrap_index row) (wrap_index col) player
                   \<and> moves_made g' = moves_made g + 1"
    using make_move_addressed(2)[OF assms, of row col player] by simp
qed

theorem make_move_rejected_unchanged_witness:
  "make_move (fst (make_move init_game 1 1 ''X'')) 1 1 ''O''
     = (fst (make_move init_game 1 1 ''X''), Return False)
   \<and> make_move init_game 0 3 ''X'' = (init_game, Raise IndexError)
   \<and> make_move (init_game\<lparr>game_over := True\<rparr>) 5 (- 1) ''X''
       = (init_game\<lparr>game_over := True\<rparr>, Return False)
   \<and> make_move (fst (make_move init_game 2 2 ''X'')) (- 1) (- 1) ''O''
       = (fst (make_move init_game 2 2 ''X''), Return False)
   \<and> (\<exists>g'. make_move init_game 0 (- 1) ''X'' = (g', Return True)
         \<and> board g' = [['' '', '' '', ''X''], ['' '', '' '', '' ''], ['' '', '' '', '' '']]
         \<and> moves_made g' = 1)"
proof -
  let ?g = "fst (make_move init_game 1 1 ''X'')"
  let ?h = "fst (make_move init_game 2 2 ''X'')"
  let ?o = "init_game\<lparr>game_over := True\<rparr>"
  have wf: "wf_board (board ?g)" by code_simp
  have occ: "(0 :: int) \<le> 1 \<and> (1 :: int) < 3 \<and> (0 :: int) \<le> 1 \<and> (1 :: int) < 3
               \<and> board ?g ! nat 1 ! nat 1 \<noteq> '' ''"
    by code_simp
  have wf0: "wf_board (board init_game)" by code_simp
  have out: "(0 :: int) < - 3 \<or> (3 :: int) \<le> 0 \<or> (3 :: int) < - 3 \<or> (3 :: int) \<le> 3" by simp
  have no: "\<not> game_over init_game" by (simp add: init_game_def)
  have wfo: "wf_board (board ?o)" by code_simp
  have ov: "game_over ?o" by simp
  have wfh: "wf_board (board ?h)" by code_simp
  have wocc: "- 3 \<le> (- 1 :: int) \<and> (- 1 :: int) < 3 \<and> - 3 \<le> (- 1 :: int) \<and> (- 1 :: int) < 3
               \<and> board ?h ! wrap_index (- 1) ! wrap_index (- 1) \<noteq> '' ''"
    by code_simp
  have wemp: "\<not> game_over init_game \<and> - 3 \<le> (0 :: int) \<and> (0 :: int) < 3
               \<and> - 3 \<le> (- 1 :: int) \<and> (- 1 :: int) < 3
               \<and> board init_game ! wrap_index 0 ! wrap_index (- 1) = '' ''"
    by code_simp
  have b: "set_cell (board init_game) (wrap_index 0) (wrap_index (- 1)) ''X''
             = [['' '', '' '', ''X''], ['' '', '' '', '' ''], ['' '', '' '', '' '']]"
    by code_simp
  have mm: "moves_made init_game = 0" by (simp add: init_game_def)
  show ?thesis
    using make_move_rejected_unchanged[OF wf, of 1 1 "''O''"] occ
      make_move_rejected_unchanged[OF wf0, of 0 3 "''X''"] out no
      make_move_rejected_unchanged[OF wfo, of 5 "- 1" "''X''"] ov
      make_move_rejected_unchanged[OF wfh, of "- 1" "- 1" "''O''"] wocc
      make_move_rejected_unchanged[OF wf0, of 0 "- 1" "''X''"] wemp b mm
    by simp
qed

text \<open>
  C10: \<open>make_move\<close> performs no range check of its own.  For coordinates \<open>row\<close>, \<open>col\<close>
  in \<open>[-3, 0)\<close>, on a game that is not over and whose cell \<open>(row + 3, col + 3)\<close> is
  empty, it places the mark at that wrapped cell and returns \<open>True\<close>, although
  \<open>is_valid_move\<close> is false for the same coordinates.
\<close>

theorem make_move_negative_wraps:
  assumes "wf_board (board g)" "\<not> game_over g" "- 3 \<le> row" "row < 0" "- 3 \<le> col" "col < 0"
    and "board g ! nat (row + 3) ! nat (col + 3) = '' ''"
  shows "(\<exists>g'. make_move g row col player = (g', Return True)
            \<and> board g' = set_cell (board g) (nat (row + 3)) (nat (col + 3)) player)
         \<and> \<not> is_valid_move g row col"
  using make_move_wraps[OF assms] is_valid_move_negative[of row col g] assms(4) by simp

theorem make_move_negative_wraps_witness:
  "(\<exists>g'. make_move init_game (- 1) (- 1) ''X'' = (g', Return True)
      \<and> board g' = [['' '', '' '', '' ''], ['' '', '' '', '' ''], ['' '', '' '', ''X'']])
   \<and> \<not> is_valid_move init_game (- 1) (- 1)"
proof -
  have wf: "wf_board (board init_game)" by code_simp
  have no: "\<not> game_over init_game" by (simp add: init_game_def)
  have e: "board init_game ! nat (- 1 + 3) ! nat (- 1 + 3) = '' ''" by code_simp
  have b: "set_cell (board init_game) (nat (- 1 + 3)) (nat (- 1 + 3)) ''X''
             = [['' '', '' '', '' ''], ['' '', '' '', '' ''], ['' '', '' '', ''X'']]"
    by code_simp
  show ?thesis
    using make_move_negative_wraps[OF wf no _ _ _ _ e, of "''X''"] b by simp
qed

text \<open>
  C7 (as stated: when a successful move ends the game the current mover is left
  unchanged).  In the position with row 0 = \<open>[X, X, ' ']\<close> and row 1 = \<open>[O, O, ' ']\<close>,
  with \<open>'X'\<close> to move, \<open>make_move(0, 2, 'X')\<close> wins the game and still sets
  \<open>current_player\<close> to \<open>'O'\<close>.
\<close>

theorem make_move_mover_counterexample:
  "current_player
     (init_game\<lparr>board := [[''X'', ''X'', '' ''], [''O'', ''O'', '' ''], ['' '', '' '', '' '']],
                moves_made := 4\<rparr>) = ''X''
   \<and> snd (make_move
       (init_game\<lparr>board := [[''X'', ''X'', '' ''], [''O'', ''O'', '' ''], ['' '', '' '', '' '']],
                  moves_made := 4\<rparr>) 0 2 ''X'') = Return True
   \<and> game_over (fst (make_move
       (init_game\<lparr>board := [[''X'', ''X'', '' ''], [''O'', ''O'', '' ''], ['' '', '' '', '' '']],
                  moves_made := 4\<rparr>) 0 2 ''X''))
   \<and> winner (fst (make_move
       (init_game\<lparr>board := [[''X'', ''X'', '' ''], [''O'', ''O'', '' ''], ['' '', '' '', '' '']],
                  moves_made := 4\<rparr>) 0 2 ''X'')) = Some ''X''
   \<and> current_player (fst (make_move
       (init_game\<lparr>board := [[''X'', ''X'', '' ''], [''O'', ''O'', '' ''], ['' '', '' '', '' '']],
                  moves_made := 4\<rparr>) 0 2 ''X'')) = ''O''"
  by code_simp

text \<open>
  C7 (amended): every successful \<open>make_move(row, col, mark)\<close> sets \<open>current_player\<close> to
  the opponent of \<open>mark\<close> (\<open>'O'\<close> if \<open>mark\<close> is \<open>'X'\<close>, else \<open>'X'\<close>), also when the move
  ends the game; the game is marked over exactly when the move completes a winning line
  for \<open>mark\<close> or brings the move count to \<open>max_moves\<close>.
\<close>

theorem make_move_sets_mover:
  assumes "make_move g row col player = (g', Return True)"
  shows "current_player g' = (if player = ''X'' then ''O'' else ''X'')
         \<and> game_over g' = (check_winner (board g') player \<or> moves_made g' = max_moves g')"
  using make_move_success_fields(1,2)[OF assms] by simp

theorem make_move_sets_mover_witness:
  "current_player (fst (make_move init_game 1 1 ''X'')) = ''O''
   \<and> \<not> game_over (fst (make_move init_game 1 1 ''X''))"
proof -
  have e: "make_move init_game 1 1 ''X'' = (fst (make_move init_game 1 1 ''X''), Return True)"
    by code_simp
  have n: "\<not> (check_winner (board (fst (make_move init_game 1 1 ''X''))) ''X''
              \<or> moves_made (fst (make_move init_game 1 1 ''X''))
                 = max_moves (fst (make_move init_game 1 1 ''X'')))"
    by code_simp
  show ?thesis using make_move_sets_mover[OF e] n by simp
qed

text \<open>
  C6: \<open>reset_game\<close> applied to any game state (so to every state reached by moves of
  either player) yields the all-empty board, \<open>'X'\<close> to move, the game not over, no
  winner, no last automated move, a zero move count and zero instrumentation counters,
  while the win and draw tallies keep the values they had before the call.
\<close>

theorem reset_game_restores:
  "board (reset_game g) = [['' '', '' '', '' ''], ['' '', '' '', '' ''], ['' '', '' '', '' '']]
   \<and> current_player (reset_game g) = ''X''
   \<and> game_over (reset_game g) = False
   \<and> winner (reset_game g) = None
   \<and> last_ai_move (reset_game g) = None
   \<and> moves_made (reset_game g) = 0
   \<and> nodes_explored (reset_game g) = 0
   \<and> depth_reached (reset_game g) = 0
   \<and> player_wins (reset_game g) = player_wins g
   \<and> ai_wins (reset_game g) = ai_wins g
   \<and> draws (reset_game g) = draws g"
  by (simp add: reset_game_def empty_board_eq)

section \<open>The search leaves the game state alone, up to the counters\<close>

lemma same_but_counters_upd: "same_but_counters g (g\<lparr>nodes_explored := a, depth_reached := e\<rparr>)"
  by (simp add: same_but_counters_def)

lemma same_but_counters_trans:
  "same_but_counters g g1 \<Longrightarrow> same_but_counters g1 g2 \<Longrightarrow> same_but_counters g g2"
  unfolding same_but_counters_def
proof -
  assume a: "g1 = g\<lparr>nodes_explored := nodes_explored g1, depth_reached := depth_reached g1\<rparr>"
    and b: "g2 = g1\<lparr>nodes_explored := nodes_explored g2, depth_reached := depth_reached g2\<rparr>"
  have "g2 = (g\<lparr>nodes_explored := nodes_explored g1, depth_reached := depth_reached g1\<rparr>)
               \<lparr>nodes_explored := nodes_explored g2, depth_reached := depth_reached g2\<rparr>"
    using a b by simp
  then show "g2 = g\<lparr>nodes_explored := nodes_explored g2, depth_reached := depth_reached g2\<rparr>"
    by simp
qed

lemma same_but_counters_board: "same_but_counters g g' \<Longrightarrow> board g' = board g"
proof -
  assume "same_but_counters g g'"
  then have "g' = g\<lparr>nodes_explored := nodes_explored g', depth_reached := depth_reached g'\<rparr>"
    by (simp add: same_but_counters_def)
  then have "board g' = board (g\<lparr>nodes_explored := nodes_explored g', depth_reached := depth_reached g'\<rparr>)"
    by simp
  then show ?thesis by simp
qed

lemma same_but_counters_restore:
  assumes "same_but_counters (g\<lparr>board := b\<rparr>) g'"
  shows "same_but_counters g (g'\<lparr>board := board g\<rparr>)"
proof -
  have "g' = g\<lparr>board := b, nodes_explored := nodes_explored g', depth_reached := depth_reached g'\<rparr>"
    using assms by (simp add: same_but_counters_def)
  then have "g'\<lparr>board := board g\<rparr>
      = g\<lparr>board := b, nodes_explored := nodes_explored g', depth_reached := depth_reached g'\<rparr>\<lparr>board := board g\<rparr>"
    by simp
  then show ?thesis by (simp add: same_but_counters_def)
qed

lemma set_cell_restore: "b ! row ! col = w \<Longrightarrow> set_cell (set_cell b row col v) row col w = b"
  by (cases "row < length b") (auto simp add: set_cell_def list_update_beyond)

lemma get_empty_cells_empty: "(row, col) \<in> set (get_empty_cells b) \<Longrightarrow> b ! row ! col = '' ''"
  by (auto simp add: get_empty_cells_def)

lemma refines_None: "refines g None y = (y = None)"
  by (simp add: refines_def)

lemma refines_Some: "refines g (Some (g', r)) y = (y = Some r \<and> same_but_counters g g')"
  by (simp add: refines_def)

lemma refines_trans: "same_but_counters g g1 \<Longrightarrow> refines g1 x y \<Longrightarrow> refines g x y"
  by (auto simp add: refines_def split: option.splits intro: same_but_counters_trans)

lemma minimax_refines:
  "refines g (minimax n g depth is_maximizing alpha beta) (alphabeta n (board g) depth is_maximizing alpha beta)"
  "list_all (\<lambda>(row, col). board g ! row ! col = '' '') cells \<Longrightarrow>
     refines g (max_loop n g depth cells max_eval best_move alpha beta)
               (alphabeta_max n (board g) depth cells max_eval best_move alpha beta)"
  "list_all (\<lambda>(row, col). board g ! row ! col = '' '') cells \<Longrightarrow>
     refines g (min_loop n g depth cells min_eval best_move alpha beta)
               (alphabeta_min n (board g) depth cells min_eval best_move alpha beta)"
proof (induction n g depth is_maximizing alpha beta and n g depth cells max_eval best_move alpha beta
        and n g depth cells min_eval best_move alpha beta rule: minimax_max_loop_min_loop.induct)
  case (1 g depth is_maximizing alpha beta)
  then show ?case by (simp add: refines_def)
next
  case (2 n g depth is_maximizing alpha beta)
  let ?g2 = "g\<lparr>nodes_explored := nodes_explored g + 1,
                depth_reached := max (depth_reached (g\<lparr>nodes_explored := nodes_explored g + 1\<rparr>)) depth\<rparr>"
  have s: "same_but_counters g ?g2" by (simp add: same_but_counters_def)
  have e: "list_all (\<lambda>(row, col). board ?g2 ! row ! col = '' '') (get_empty_cells (board ?g2))"
    by (auto simp add: list_all_iff get_empty_cells_empty)
  show ?case
  proof (cases "check_winner (board g) ''O'' \<or> check_winner (board g) ''X'' \<or> get_empty_cells (board g) = []")
    case True
    then show ?thesis using s by (auto simp add: refines_Some Let_def)
  next
    case False
    show ?thesis
    proof (cases is_maximizing)
      case True
      have "refines ?g2 (max_loop n ?g2 depth (get_empty_cells (board ?g2)) NegInf None alpha beta)
               (alphabeta_max n (board ?g2) depth (get_empty_cells (board ?g2)) NegInf None alpha beta)"
        using False True e by (intro "2.IH"(1)) (auto)
      then show ?thesis using False True refines_trans[OF s] by (simp add: Let_def)
    next
      case im: False
      have "refines ?g2 (min_loop n ?g2 depth (get_empty_cells (board ?g2)) PosInf None alpha beta)
               (alphabeta_min n (board ?g2) depth (get_empty_cells (board ?g2)) PosInf None alpha beta)"
        using False im e by (intro "2.IH"(2)) (auto)
      then show ?thesis using False im refines_trans[OF s] by (simp add: Let_def)
    qed
  qed
next
  case (3 n g depth max_eval best_move alpha beta)
  then show ?case by (simp add: refines_def same_but_counters_def)
next
  case (4 n g depth row col cells max_eval best_move alpha beta)
  let ?g1 = "g\<lparr>board := set_cell (board g) row col ''O''\<rparr>"
  have emp: "board g ! row ! col = '' ''" and rest: "list_all (\<lambda>(row, col). board g ! row ! col = '' '') cells"
    using "4.prems" by simp_all
  have r1: "refines ?g1 (minimax n ?g1 (depth + 1) False alpha beta)
              (alphabeta n (board ?g1) (depth + 1) False alpha beta)"
    by (rule "4.IH"(1))
  show ?case
  proof (cases "minimax n ?g1 (depth + 1) False alpha beta")
    case None
    then show ?thesis using r1 by (simp add: refines_None)
  next
    case (Some x)
    obtain g' ev m where x: "x = (g', ev, m)" by (cases x) auto
    have a: "alphabeta n (set_cell (board g) row col ''O'') (depth + 1) False alpha beta = Some (ev, m)"
      and s1: "same_but_counters ?g1 g'"
      using r1 Some x by (simp_all add: refines_Some)
    let ?gr = "g'\<lparr>board := set_cell (board g') row col '' ''\<rparr>"
    have "board g' = set_cell (board g) row col ''O''"
      using same_but_counters_board[OF s1] by simp
    then have rst: "set_cell (board g') row col '' '' = board g"
      using emp by (simp add: set_cell_restore)
    have s2: "same_but_counters g ?gr"
      using same_but_counters_restore[OF s1] rst by simp
    have b2: "board ?gr = board g" using rst by simp
    show ?thesis
    proof (cases "beta \<le> max alpha ev")
      case True
      then show ?thesis using Some x a s2 by (simp add: refines_Some Let_def)
    next
      case False
      have "refines ?gr (max_loop n ?gr depth cells (if max_eval < ev then ev else max_eval)
                (if max_eval < ev then Some (row, col) else best_move) (max alpha ev) beta)
              (alphabeta_max n (board ?gr) depth cells (if max_eval < ev then ev else max_eval)
                (if max_eval < ev then Some (row, col) else best_move) (max alpha ev) beta)"
        using Some x False rest b2 by (intro "4.IH"(2)) auto
      then have "refines g (max_loop n ?gr depth cells (if max_eval < ev then ev else max_eval)
                (if max_eval < ev then Some (row, col) else best_move) (max alpha ev) beta)
              (alphabeta_max n (board g) depth cells (if max_eval < ev then ev else max_eval)
                (if max_eval < ev then Some (row, col) else best_move) (max alpha ev) beta)"
        using refines_trans[OF s2] b2 by simp
      then show ?thesis using Some x a False by (simp add: Let_def)
    qed
  qed
next
  case (5 n g depth min_eval best_move alpha beta)
  then show ?case by (simp add: refines_def same_but_counters_def)
next
  case (6 n g depth row col cells min_eval best_move alpha beta)
  let ?g1 = "g\<lparr>board := set_cell (board g) row col ''X''\<rparr>"
  have emp: "board g ! row ! col = '' ''" and rest: "list_all (\<lambda>(row, col). board g ! row ! col = '' '') cells"
    using "6.prems" by simp_all
  have r1: "refines ?g1 (minimax n ?g1 (depth + 1) True alpha beta)
              (alphabeta n (board ?g1) (depth + 1) True alpha beta)"
    by (rule "6.IH"(1))
  show ?case
  proof (cases "minimax n ?g1 (depth + 1) True alpha beta")
    case None
    then show ?thesis using r1 by (simp add: refines_None)
  next
    case (Some x)
    obtain g' ev m where x: "x = (g', ev, m)" by (cases x) auto
    have a: "alphabeta n (set_cell (board g) row col ''X'') (depth + 1) True alpha beta = Some (ev, m)"
      and s1: "same_but_counters ?g1 g'"
      using r1 Some x by (simp_all add: refines_Some)
    let ?gr = "g'\<lparr>board := set_cell (board g') row col '' ''\<rparr>"
    have "board g' = set_cell (board g) row col ''X''"
      using same_but_counters_board[OF s1] by simp
    then have rst: "set_cell (board g') row col '' '' = board g"
      using emp by (simp add: set_cell_restore)
    have s2: "same_but_counters g ?gr"
      using same_but_counters_restore[OF s1] rst by simp
    have b2: "board ?gr = board g" using rst by simp
    show ?thesis
    proof (cases "min beta ev \<le> alpha")
      case True
      then show ?thesis using Some x a s2 by (simp add: refines_Some Let_def)
    next
      case False
      have "refines ?gr (min_loop n ?gr depth cells (if ev < min_eval then ev else min_eval)
                (if ev < min_eval then Some (row, col) else best_move) alpha (min beta ev))
              (alphabeta_min n (board ?gr) depth cells (if ev < min_eval then ev else min_eval)
                (if ev < min_eval then Some (row, col) else best_move) alpha (min beta ev))"
        using Some x False rest b2 by (intro "6.IH"(2)) auto
      then have "refines g (min_loop n ?gr depth cells (if ev < min_eval then ev else min_eval)
                (if ev < min_eval then Some (row, col) else best_move) alpha (min beta ev))
              (alphabeta_min n (board g) depth cells (if ev < min_eval then ev else min_eval)
                (if ev < min_eval then Some (row, col) else best_move) alpha (min beta ev))"
        using refines_trans[OF s2] b2 by simp
      then show ?thesis using Some x a False by (simp add: Let_def)
    qed
  qed
qed

section \<open>Enough fuel: the search returns\<close>

lemma upt3: "[0..<BOARD_SIZE] = [0, Suc 0, 2]"
  by (simp add: BOARD_SIZE_def upt_rec numeral_2_eq_2)

lemma nth3: "[a, b, c] ! 0 = a" "[a, b, c] ! Suc 0 = b" "[a, b, c] ! 2 = c"
  by (simp_all add: numeral_2_eq_2)

lemma list3: "length xs = 3 \<Longrightarrow> \<exists>a b c. xs = [a, b, c]"
  by (cases xs; simp; (cases "tl xs"; simp; cases "tl (tl xs)"; simp))

lemma wf_board_grid: "wf_board b \<Longrightarrow> \<exists>a1 a2 a3 b1 b2 b3 c1 c2 c3. b = grid a1 a2 a3 b1 b2 b3 c1 c2 c3"
proof -
  assume wf: "wf_board b"
  then have "length b = 3" by (simp add: wf_board_def BOARD_SIZE_def)
  then obtain r1 r2 r3 where b: "b = [r1, r2, r3]" using list3 by blast
  then have "length r1 = 3" "length r2 = 3" "length r3 = 3"
    using wf by (simp_all add: wf_board_def BOARD_SIZE_def)
  then obtain a1 a2 a3 b1 b2 b3 c1 c2 c3 where "r1 = [a1, a2, a3]" "r2 = [b1, b2, b3]" "r3 = [c1, c2, c3]"
    using list3 by metis
  then show ?thesis using b by (auto simp add: grid_def)
qed

lemma wf_board_grid_iff: "wf_board (grid a b c d e f g h i)"
  by (simp add: wf_board_def grid_def BOARD_SIZE_def)

lemma get_empty_cells_grid:
  "get_empty_cells (grid a b c d e f g h i) =
     (if a = '' '' then [(0, 0)] else []) @ (if b = '' '' then [(0, Suc 0)] else [])
     @ (if c = '' '' then [(0, 2)] else []) @ (if d = '' '' then [(Suc 0, 0)] else [])
     @ (if e = '' '' then [(Suc 0, Suc 0)] else []) @ (if f = '' '' then [(Suc 0, 2)] else [])
     @ (if g = '' '' then [(2, 0)] else []) @ (if h = '' '' then [(2, Suc 0)] else [])
     @ (if i = '' '' then [(2, 2)] else [])"
  unfolding get_empty_cells_def upt3 grid_def by (simp add: nth3)

lemma length_if: "length (if p then [x] else []) = (if p then 1 else 0)"
  by simp

lemma length_get_empty_cells_grid:
  "length (get_empty_cells (grid a b c d e f g h i)) =
     blank a + blank b + blank c + blank d + blank e + blank f + blank g + blank h + blank i"
  unfolding get_empty_cells_grid length_append length_if blank_def by (simp only: add.assoc)

lemma set_cell_grid:
  "set_cell (grid a b c d e f g h i) 0 0 v = grid v b c d e f g h i"
  "set_cell (grid a b c d e f g h i) 0 (Suc 0) v = grid a v c d e f g h i"
  "set_cell (grid a b c d e f g h i) 0 2 v = grid a b v d e f g h i"
  "set_cell (grid a b c d e f g h i) (Suc 0) 0 v = grid a b c v e f g h i"
  "set_cell (grid a b c d e f g h i) (Suc 0) (Suc 0) v = grid a b c d v f g h i"
  "set_cell (grid a b c d e f g h i) (Suc 0) 2 v = grid a b c d e v g h i"
  "set_cell (grid a b c d e f g h i) 2 0 v = grid a b c d e f v h i"
  "set_cell (grid a b c d e f g h i) 2 (Suc 0) v = grid a b c d e f g v i"
  "set_cell (grid a b c d e f g h i) 2 2 v = grid a b c d e f g h v"
  by (simp_all add: set_cell_def grid_def numeral_2_eq_2)

lemma mem_get_empty_cells:
  "(row, col) \<in> set (get_empty_cells b) = (row < 3 \<and> col < 3 \<and> b ! row ! col = '' '')"
  by (auto simp add: get_empty_cells_def BOARD_SIZE_def)

lemma less3: "(n :: nat) < 3 \<Longrightarrow> n = 0 \<or> n = Suc 0 \<or> n = 2"
  by arith

lemma nth_grid:
  "grid a b c d e f g h i ! 0 = [a, b, c]"
  "grid a b c d e f g h i ! Suc 0 = [d, e, f]"
  "grid a b c d e f g h i ! 2 = [g, h, i]"
  by (simp_all add: grid_def numeral_2_eq_2)

lemma set_cell_fewer_empty:
  assumes "wf_board b" "(row, col) \<in> set (get_empty_cells b)" "v \<noteq> '' ''"
  shows "wf_board (set_cell b row col v)
         \<and> Suc (length (get_empty_cells (set_cell b row col v))) = length (get_empty_cells b)"
proof -
  obtain a1 a2 a3 b1 b2 b3 c1 c2 c3 where b: "b = grid a1 a2 a3 b1 b2 b3 c1 c2 c3"
    using wf_board_grid[OF assms(1)] by blast
  have v: "blank v = 0" using assms(3) by (simp add: blank_def)
  have e: "blank '' '' = 1" by (simp add: blank_def)
  have "row < 3" "col < 3" and c: "b ! row ! col = '' ''"
    using assms(2) by (simp_all add: mem_get_empty_cells)
  then have rc: "row = 0 \<or> row = Suc 0 \<or> row = 2" "col = 0 \<or> col = Suc 0 \<or> col = 2"
    by (simp_all add: less3)
  show ?thesis
    using rc c unfolding b
    by (elim disjE) (simp_all add: nth_grid nth3 set_cell_grid wf_board_grid_iff length_get_empty_cells_grid v e)
qed

lemma alphabeta_max_total:
  assumes IH: "\<And>b depth is_maximizing alpha beta.
      wf_board b \<Longrightarrow> length (get_empty_cells b) < n \<Longrightarrow>
      alphabeta n b depth is_maximizing alpha beta \<noteq> None"
    and "wf_board b" "length (get_empty_cells b) \<le> n" "set cells \<subseteq> set (get_empty_cells b)"
  shows "alphabeta_max n b depth cells max_eval best_move alpha beta \<noteq> None"
  using assms(4)
proof (induction cells arbitrary: max_eval best_move alpha beta)
  case Nil
  show ?case by simp
next
  case (Cons cell cells)
  obtain row col where cell: "cell = (row, col)" by (cases cell)
  have m: "(row, col) \<in> set (get_empty_cells b)" and sub: "set cells \<subseteq> set (get_empty_cells b)"
    using Cons.prems cell by auto
  have "wf_board (set_cell b row col ''O'')" "length (get_empty_cells (set_cell b row col ''O'')) < n"
    using set_cell_fewer_empty[OF assms(2) m, of "''O''"] assms(3) by auto
  then obtain r where "alphabeta n (set_cell b row col ''O'') (depth + 1) False alpha beta = Some r"
    using IH by blast
  then show ?case using Cons.IH[OF sub] cell by (cases r) simp
qed

lemma alphabeta_min_total:
  assumes IH: "\<And>b depth is_maximizing alpha beta.
      wf_board b \<Longrightarrow> length (get_empty_cells b) < n \<Longrightarrow>
      alphabeta n b depth is_maximizing alpha beta \<noteq> None"
    and "wf_board b" "length (get_empty_cells b) \<le> n" "set cells \<subseteq> set (get_empty_cells b)"
  shows "alphabeta_min n b depth cells min_eval best_move alpha beta \<noteq> None"
  using assms(4)
proof (induction cells arbitrary: min_eval best_move alpha beta)
  case Nil
  show ?case by simp
next
  case (Cons cell cells)
  obtain row col where cell: "cell = (row, col)" by (cases cell)
  have m: "(row, col) \<in> set (get_empty_cells b)" and sub: "set cells \<subseteq> set (get_empty_cells b)"
    using Cons.prems cell by auto
  have "wf_board (set_cell b row col ''X'')" "length (get_empty_cells (set_cell b row col ''X'')) < n"
    using set_cell_fewer_empty[OF assms(2) m, of "''X''"] assms(3) by auto
  then obtain r where "alphabeta n (set_cell b row col ''X'') (depth + 1) True alpha beta = Some r"
    using IH by blast
  then show ?case using Cons.IH[OF sub] cell by (cases r) simp
qed

lemma alphabeta_total:
  "wf_board b \<Longrightarrow> length (get_empty_cells b) < n \<Longrightarrow>
     alphabeta n b depth is_maximizing alpha beta \<noteq> None"
proof (induction n arbitrary: b depth is_maximizing alpha beta)
  case 0
  then show ?case by simp
next
  case (Suc n)
  have le: "length (get_empty_cells b) \<le> n" using Suc.prems by simp
  show ?case
    using alphabeta_max_total[OF Suc.IH Suc.prems(1) le subset_refl]
      alphabeta_min_total[OF Suc.IH Suc.prems(1) le subset_refl]
    by simp
qed

section \<open>The counters accumulate\<close>

lemma shift_result_simps:
  "shift_result a e None = None"
  "shift_result a e (Some (g', r)) = Some (shift a e g', r)"
  by (simp_all add: shift_result_def)

lemma shift_board: "board (shift a e g) = board g"
  by (simp add: shift_def)

lemma shift_set_board: "(shift a e g)\<lparr>board := b\<rparr> = shift a e (g\<lparr>board := b\<rparr>)"
  by (simp add: shift_def)

lemma shift_count:
  "(shift a e g)\<lparr>nodes_explored := nodes_explored (shift a e g) + 1,
       depth_reached := max (depth_reached (shift a e g)) depth\<rparr>
   = shift a e (g\<lparr>nodes_explored := nodes_explored g + 1,
        depth_reached := max (depth_reached g) depth\<rparr>)"
  by (simp add: shift_def max.assoc max.commute max.left_commute)

lemma minimax_shift:
  "minimax n (shift a e g) depth is_maximizing alpha beta
     = shift_result a e (minimax n g depth is_maximizing alpha beta)"
  "max_loop n (shift a e g) depth cells max_eval best_move alpha beta
     = shift_result a e (max_loop n g depth cells max_eval best_move alpha beta)"
  "min_loop n (shift a e g) depth cells min_eval best_move alpha beta
     = shift_result a e (min_loop n g depth cells min_eval best_move alpha beta)"
proof (induction n g depth is_maximizing alpha beta and n g depth cells max_eval best_move alpha beta
        and n g depth cells min_eval best_move alpha beta rule: minimax_max_loop_min_loop.induct)
  case (1 g depth is_maximizing alpha beta)
  then show ?case by (simp add: shift_result_simps)
next
  case (2 n g depth is_maximizing alpha beta)
  let ?g2 = "g\<lparr>nodes_explored := nodes_explored g + 1,
                depth_reached := max (depth_reached (g\<lparr>nodes_explored := nodes_explored g + 1\<rparr>)) depth\<rparr>"
  have b: "board ?g2 = board g" by simp
  show ?case
  proof (cases "check_winner (board g) ''O'' \<or> check_winner (board g) ''X'' \<or> get_empty_cells (board g) = []")
    case True
    then show ?thesis
      by (auto simp add: Let_def shift_count shift_board shift_result_simps simp del: minimax.simps(1))
  next
    case False
    show ?thesis
    proof (cases is_maximizing)
      case True
      have "max_loop n (shift a e ?g2) depth (get_empty_cells (board ?g2)) NegInf None alpha beta
            = shift_result a e (max_loop n ?g2 depth (get_empty_cells (board ?g2)) NegInf None alpha beta)"
        using False True by (intro "2.IH"(1)) auto
      then show ?thesis using False True
        by (simp add: Let_def shift_count shift_board)
    next
      case im: False
      have "min_loop n (shift a e ?g2) depth (get_empty_cells (board ?g2)) PosInf None alpha beta
            = shift_result a e (min_loop n ?g2 depth (get_empty_cells (board ?g2)) PosInf None alpha beta)"
        using False im by (intro "2.IH"(2)) auto
      then show ?thesis using False im
        by (simp add: Let_def shift_count shift_board)
    qed
  qed
next
  case (3 n g depth max_eval best_move alpha beta)
  then show ?case by (simp add: shift_result_simps)
next
  case (4 n g depth row col cells max_eval best_move alpha beta)
  let ?g1 = "g\<lparr>board := set_cell (board g) row col ''O''\<rparr>"
  have r1: "minimax n (shift a e ?g1) (depth + 1) False alpha beta
             = shift_result a e (minimax n ?g1 (depth + 1) False alpha beta)"
    by (rule "4.IH"(1))
  show ?case
  proof (cases "minimax n ?g1 (depth + 1) False alpha beta")
    case None
    then show ?thesis using r1 by (simp add: shift_result_simps shift_board shift_set_board)
  next
    case (Some x)
    obtain g' ev m where x: "x = (g', ev, m)" by (cases x) auto
    let ?gr = "g'\<lparr>board := set_cell (board g') row col '' ''\<rparr>"
    have l: "minimax n (shift a e ?g1) (depth + 1) False alpha beta = Some (shift a e g', ev, m)"
      using r1 Some x by (simp add: shift_result_simps)
    have gr: "(shift a e g')\<lparr>board := set_cell (board (shift a e g')) row col '' ''\<rparr> = shift a e ?gr"
      by (simp add: shift_board shift_set_board)
    show ?thesis
    proof (cases "beta \<le> max alpha ev")
      case True
      then show ?thesis using Some x l gr
        by (simp add: shift_result_simps shift_board shift_set_board Let_def)
    next
      case False
      have "max_loop n (shift a e ?gr) depth cells (if max_eval < ev then ev else max_eval)
                (if max_eval < ev then Some (row, col) else best_move) (max alpha ev) beta
            = shift_result a e (max_loop n ?gr depth cells (if max_eval < ev then ev else max_eval)
                (if max_eval < ev then Some (row, col) else best_move) (max alpha ev) beta)"
        using Some x False by (intro "4.IH"(2)) auto
      then show ?thesis using Some x l gr False
        by (simp add: shift_board shift_set_board Let_def)
    qed
  qed
next
  case (5 n g depth min_eval best_move alpha beta)
  then show ?case by (simp add: shift_result_simps)
next
  case (6 n g depth row col cells min_eval best_move alpha beta)
  let ?g1 = "g\<lparr>board := set_cell (board g) row col ''X''\<rparr>"
  have r1: "minimax n (shift a e ?g1) (depth + 1) True alpha beta
             = shift_result a e (minimax n ?g1 (depth + 1) True alpha beta)"
    by (rule "6.IH"(1))
  show ?case
  proof (cases "minimax n ?g1 (depth + 1) True alpha beta")
    case None
    then show ?thesis using r1 by (simp add: shift_result_simps shift_board shift_set_board)
  next
    case (Some x)
    obtain g' ev m where x: "x = (g', ev, m)" by (cases x) auto
    let ?gr = "g'\<lparr>board := set_cell (board g') row col '' ''\<rparr>"
    have l: "minimax n (shift a e ?g1) (depth + 1) True alpha beta = Some (shift a e g', ev, m)"
      using r1 Some x by (simp add: shift_result_simps)
    have gr: "(shift a e g')\<lparr>board := set_cell (board (shift a e g')) row col '' ''\<rparr> = shift a e ?gr"
      by (simp add: shift_board shift_set_board)
    show ?thesis
    proof (cases "min beta ev \<le> alpha")
      case True
      then show ?thesis using Some x l gr
        by (simp add: shift_result_simps shift_board shift_set_board Let_def)
    next
      case False
      have "min_loop n (shift a e ?gr) depth cells (if ev < min_eval then ev else min_eval)
                (if ev < min_eval then Some (row, col) else best_move) alpha (min beta ev)
            = shift_result a e (min_loop n ?gr depth cells (if ev < min_eval then ev else min_eval)
                (if ev < min_eval then Some (row, col) else best_move) alpha (min beta ev))"
        using Some x False by (intro "6.IH"(2)) auto
      then show ?thesis using Some x l gr False
        by (simp add: shift_board shift_set_board Let_def)
    qed
  qed
qed

lemma minimax_counters_grow:
  "minimax n g depth is_maximizing alpha beta = Some (g', r) \<Longrightarrow>
     nodes_explored g < nodes_explored g' \<and> depth_reached g \<le> depth_reached g'"
  "max_loop n g depth cells max_eval best_move alpha beta = Some (g', r) \<Longrightarrow>
     nodes_explored g \<le> nodes_explored g' \<and> depth_reached g \<le> depth_reached g'"
  "min_loop n g depth cells min_eval best_move alpha beta = Some (g', r) \<Longrightarrow>
     nodes_explored g \<le> nodes_explored g' \<and> depth_reached g \<le> depth_reached g'"
proof (induction n g depth is_maximizing alpha beta and n g depth cells max_eval best_move alpha beta
        and n g depth cells min_eval best_move alpha beta arbitrary: g' r and g' r and g' r
        rule: minimax_max_loop_min_loop.induct)
  case (1 g depth is_maximizing alpha beta)
  then show ?case by simp
next
  case (2 n g depth is_maximizing alpha beta)
  let ?g2 = "g\<lparr>nodes_explored := nodes_explored g + 1,
                depth_reached := max (depth_reached (g\<lparr>nodes_explored := nodes_explored g + 1\<rparr>)) depth\<rparr>"
  show ?case
  proof (cases "check_winner (board g) ''O'' \<or> check_winner (board g) ''X'' \<or> get_empty_cells (board g) = []")
    case True
    then show ?thesis using "2.prems" by (auto simp add: Let_def split: if_splits)
  next
    case False
    show ?thesis
    proof (cases is_maximizing)
      case True
      then have "max_loop n ?g2 depth (get_empty_cells (board ?g2)) NegInf None alpha beta = Some (g', r)"
        using False "2.prems" by (simp add: Let_def)
      then have "nodes_explored ?g2 \<le> nodes_explored g' \<and> depth_reached ?g2 \<le> depth_reached g'"
        using False True by (intro "2.IH"(1)) auto
      then show ?thesis by simp
    next
      case im: False
      then have "min_loop n ?g2 depth (get_empty_cells (board ?g2)) PosInf None alpha beta = Some (g', r)"
        using False "2.prems" by (simp add: Let_def)
      then have "nodes_explored ?g2 \<le> nodes_explored g' \<and> depth_reached ?g2 \<le> depth_reached g'"
        using False im by (intro "2.IH"(2)) auto
      then show ?thesis by simp
    qed
  qed
next
  case (3 n g depth max_eval best_move alpha beta)
  then show ?case by simp
next
  case (4 n g depth row col cells max_eval best_move alpha beta)
  let ?g1 = "g\<lparr>board := set_cell (board g) row col ''O''\<rparr>"
  from "4.prems" obtain g1' ev m where
    c: "minimax n ?g1 (depth + 1) False alpha beta = Some (g1', ev, m)"
    by (auto split: option.splits)
  have 1: "nodes_explored ?g1 < nodes_explored g1' \<and> depth_reached ?g1 \<le> depth_reached g1'"
    using c by (rule "4.IH"(1))
  let ?gr = "g1'\<lparr>board := set_cell (board g1') row col '' ''\<rparr>"
  show ?case
  proof (cases "beta \<le> max alpha ev")
    case True
    then have "g' = ?gr" using "4.prems" c by (simp add: Let_def)
    then show ?thesis using 1 by simp
  next
    case False
    then have "max_loop n ?gr depth cells (if max_eval < ev then ev else max_eval)
                (if max_eval < ev then Some (row, col) else best_move) (max alpha ev) beta = Some (g', r)"
      using "4.prems" c by (simp add: Let_def)
    then have "nodes_explored ?gr \<le> nodes_explored g' \<and> depth_reached ?gr \<le> depth_reached g'"
      using c False by (intro "4.IH"(2)) auto
    then show ?thesis using 1 by simp
  qed
next
  case (5 n g depth min_eval best_move alpha beta)
  then show ?case by simp
next
  case (6 n g depth row col cells min_eval best_move alpha beta)
  let ?g1 = "g\<lparr>board := set_cell (board g) row col ''X''\<rparr>"
  from "6.prems" obtain g1' ev m where
    c: "minimax n ?g1 (depth + 1) True alpha beta = Some (g1', ev, m)"
    by (auto split: option.splits)
  have 1: "nodes_explored ?g1 < nodes_explored g1' \<and> depth_reached ?g1 \<le> depth_reached g1'"
    using c by (rule "6.IH"(1))
  let ?gr = "g1'\<lparr>board := set_cell (board g1') row col '' ''\<rparr>"
  show ?case
  proof (cases "min beta ev \<le> alpha")
    case True
    then have "g' = ?gr" using "6.prems" c by (simp add: Let_def)
    then show ?thesis using 1 by simp
  next
    case False
    then have "min_loop n ?gr depth cells (if ev < min_eval then ev else min_eval)
                (if ev < min_eval then Some (row, col) else best_move) alpha (min beta ev) = Some (g', r)"
      using "6.prems" c by (simp add: Let_def)
    then have "nodes_explored ?gr \<le> nodes_explored g' \<and> depth_reached ?gr \<le> depth_reached g'"
      using c False by (intro "6.IH"(2)) auto
    then show ?thesis using 1 by simp
  qed
qed

lemma counted_Nil: "counted g [] g' = (nodes_explored g' = nodes_explored g \<and> depth_reached g' = depth_reached g)"
  by (simp add: counted_def)

lemma counted_append: "counted g xs g1 \<Longrightarrow> counted g1 ys g2 \<Longrightarrow> counted g (xs @ ys) g2"
  by (simp add: counted_def)

lemma counted_same:
  "nodes_explored g0 = nodes_explored g \<Longrightarrow> depth_reached g0 = depth_reached g \<Longrightarrow>
     counted g0 ds g' \<Longrightarrow> counted g ds g'"
  by (simp add: counted_def)

lemma minimax_counted:
  "minimax n g depth is_maximizing alpha beta = Some (g', r) \<Longrightarrow>
     counted g (visited n (board g) depth is_maximizing alpha beta) g'"
  "max_loop n g depth cells max_eval best_move alpha beta = Some (g', r) \<Longrightarrow>
     list_all (\<lambda>(row, col). board g ! row ! col = '' '') cells \<Longrightarrow>
     counted g (visited_max n (board g) depth cells alpha beta) g'"
  "min_loop n g depth cells min_eval best_move alpha beta = Some (g', r) \<Longrightarrow>
     list_all (\<lambda>(row, col). board g ! row ! col = '' '') cells \<Longrightarrow>
     counted g (visited_min n (board g) depth cells alpha beta) g'"
proof (induction n g depth is_maximizing alpha beta and n g depth cells max_eval best_move alpha beta
        and n g depth cells min_eval best_move alpha beta arbitrary: g' r and g' r and g' r
        rule: minimax_max_loop_min_loop.induct)
  case (1 g depth is_maximizing alpha beta)
  then show ?case by simp
next
  case (2 n g depth is_maximizing alpha beta)
  let ?g2 = "g\<lparr>nodes_explored := nodes_explored g + 1,
                depth_reached := max (depth_reached (g\<lparr>nodes_explored := nodes_explored g + 1\<rparr>)) depth\<rparr>"
  have e: "list_all (\<lambda>(row, col). board ?g2 ! row ! col = '' '') (get_empty_cells (board ?g2))"
    by (auto simp add: list_all_iff get_empty_cells_empty)
  have one: "counted g [depth] ?g2" by (simp add: counted_def max.commute)
  show ?case
  proof (cases "check_winner (board g) ''O'' \<or> check_winner (board g) ''X'' \<or> get_empty_cells (board g) = []")
    case True
    then have "g' = ?g2" using "2.prems" by (auto simp add: Let_def split: if_splits)
    then show ?thesis using True one by simp
  next
    case False
    show ?thesis
    proof (cases is_maximizing)
      case True
      then have "max_loop n ?g2 depth (get_empty_cells (board ?g2)) NegInf None alpha beta = Some (g', r)"
        using False "2.prems" by (simp add: Let_def)
      then have "counted ?g2 (visited_max n (board ?g2) depth (get_empty_cells (board ?g2)) alpha beta) g'"
        using False True e by (intro "2.IH"(1)) auto
      then have "counted g ([depth] @ visited_max n (board g) depth (get_empty_cells (board g)) alpha beta) g'"
        using counted_append[OF one] by simp
      then show ?thesis using False True by simp
    next
      case im: False
      then have "min_loop n ?g2 depth (get_empty_cells (board ?g2)) PosInf None alpha beta = Some (g', r)"
        using False "2.prems" by (simp add: Let_def)
      then have "counted ?g2 (visited_min n (board ?g2) depth (get_empty_cells (board ?g2)) alpha beta) g'"
        using False im e by (intro "2.IH"(2)) auto
      then have "counted g ([depth] @ visited_min n (board g) depth (get_empty_cells (board g)) alpha beta) g'"
        using counted_append[OF one] by simp
      then show ?thesis using False im by simp
    qed
  qed
next
  case (3 n g depth max_eval best_move alpha beta)
  then show ?case by (simp add: counted_def)
next
  case (4 n g depth row col cells max_eval best_move alpha beta)
  let ?g1 = "g\<lparr>board := set_cell (board g) row col ''O''\<rparr>"
  have emp: "board g ! row ! col = '' ''" and rest: "list_all (\<lambda>(row, col). board g ! row ! col = '' '') cells"
    using "4.prems"(2) by simp_all
  from "4.prems"(1) obtain g1' ev m where
    c: "minimax n ?g1 (depth + 1) False alpha beta = Some (g1', ev, m)"
    by (auto split: option.splits)
  have a: "alphabeta n (set_cell (board g) row col ''O'') (depth + 1) False alpha beta = Some (ev, m)"
    and s1: "same_but_counters ?g1 g1'"
    using minimax_refines(1)[of ?g1 n "depth + 1" False alpha beta] c by (simp_all add: refines_Some)
  have "counted ?g1 (visited n (board ?g1) (depth + 1) False alpha beta) g1'"
    using c by (rule "4.IH"(1))
  then have 1: "counted g (visited n (set_cell (board g) row col ''O'') (depth + 1) False alpha beta) g1'"
    by (simp add: counted_def)
  let ?gr = "g1'\<lparr>board := set_cell (board g1') row col '' ''\<rparr>"
  have "board g1' = set_cell (board g) row col ''O''"
    using same_but_counters_board[OF s1] by simp
  then have b2: "board ?gr = board g" using emp by (simp add: set_cell_restore)
  have 2: "counted g (visited n (set_cell (board g) row col ''O'') (depth + 1) False alpha beta) ?gr"
    using 1 by (simp add: counted_def)
  show ?case
  proof (cases "beta \<le> max alpha ev")
    case True
    then have "g' = ?gr" using "4.prems"(1) c by (simp add: Let_def)
    then show ?thesis using 2 a True by simp
  next
    case False
    then have "max_loop n ?gr depth cells (if max_eval < ev then ev else max_eval)
                (if max_eval < ev then Some (row, col) else best_move) (max alpha ev) beta = Some (g', r)"
      using "4.prems"(1) c by (simp add: Let_def)
    then have "counted ?gr (visited_max n (board ?gr) depth cells (max alpha ev) beta) g'"
      using c False rest b2 by (intro "4.IH"(2)) auto
    then have "counted ?gr (visited_max n (board g) depth cells (max alpha ev) beta) g'"
      using b2 by simp
    from counted_append[OF 2 this] show ?thesis using a False by simp
  qed
next
  case (5 n g depth min_eval best_move alpha beta)
  then show ?case by (simp add: counted_def)
next
  case (6 n g depth row col cells min_eval best_move alpha beta)
  let ?g1 = "g\<lparr>board := set_cell (board g) row col ''X''\<rparr>"
  have emp: "board g ! row ! col = '' ''" and rest: "list_all (\<lambda>(row, col). board g ! row ! col = '' '') cells"
    using "6.prems"(2) by simp_all
  from "6.prems"(1) obtain g1' ev m where
    c: "minimax n ?g1 (depth + 1) True alpha beta = Some (g1', ev, m)"
    by (auto split: option.splits)
  have a: "alphabeta n (set_cell (board g) row col ''X'') (depth + 1) True alpha beta = Some (ev, m)"
    and s1: "same_but_counters ?g1 g1'"
    using minimax_refines(1)[of ?g1 n "depth + 1" True alpha beta] c by (simp_all add: refines_Some)
  have "counted ?g1 (visited n (board ?g1) (depth + 1) True alpha beta) g1'"
    using c by (rule "6.IH"(1))
  then have 1: "counted g (visited n (set_cell (board g) row col ''X'') (depth + 1) True alpha beta) g1'"
    by (simp add: counted_def)
  let ?gr = "g1'\<lparr>board := set_cell (board g1') row col '' ''\<rparr>"
  have "board g1' = set_cell (board g) row col ''X''"
    using same_but_counters_board[OF s1] by simp
  then have b2: "board ?gr = board g" using emp by (simp add: set_cell_restore)
  have 2: "counted g (visited n (set_cell (board g) row col ''X'') (depth + 1) True alpha beta) ?gr"
    using 1 by (simp add: counted_def)
  show ?case
  proof (cases "min beta ev \<le> alpha")
    case True
    then have "g' = ?gr" using "6.prems"(1) c by (simp add: Let_def)
    then show ?thesis using 2 a True by simp
  next
    case False
    then have "min_loop n ?gr depth cells (if ev < min_eval then ev else min_eval)
                (if ev < min_eval then Some (row, col) else best_move) alpha (min beta ev) = Some (g', r)"
      using "6.prems"(1) c by (simp add: Let_def)
    then have "counted ?gr (visited_min n (board ?gr) depth cells alpha (min beta ev)) g'"
      using c False rest b2 by (intro "6.IH"(2)) auto
    then have "counted ?gr (visited_min n (board g) depth cells alpha (min beta ev)) g'"
      using b2 by simp
    from counted_append[OF 2 this] show ?thesis using a False by simp
  qed
qed

section \<open>Pruning against plain minimax\<close>

lemma NegInf_least [simp]: "NegInf \<le> x"
  by (simp add: less_eq_score_def)

lemma PosInf_greatest [simp]: "x \<le> PosInf"
  by (cases x) (simp_all add: less_eq_score_def)

lemma Fin_between [simp]: "NegInf < Fin x" "Fin x < PosInf" "NegInf < PosInf"
  by (simp_all add: less_score_def)

lemma agrees_refl: "agrees alpha beta p p"
  by (simp add: agrees_def)

lemma plain_max_mono:
  "plain_max n b depth cells max_eval best_move = Some p \<Longrightarrow> max_eval \<le> fst p"
proof (induction cells arbitrary: max_eval best_move)
  case Nil
  then show ?case by auto
next
  case (Cons cell cells)
  obtain row col where cell: "cell = (row, col)" by (cases cell)
  from Cons.prems obtain t m where
    c: "plain_minimax n (set_cell b row col ''O'') (depth + 1) False = Some (t, m)"
    unfolding cell by (auto split: option.splits)
  have "plain_max n b depth cells (if max_eval < t then t else max_eval)
          (if max_eval < t then Some (row, col) else best_move) = Some p"
    using Cons.prems c unfolding cell by simp
  from Cons.IH[OF this] show ?case by (auto split: if_splits)
qed

lemma plain_min_mono:
  "plain_min n b depth cells min_eval best_move = Some p \<Longrightarrow> fst p \<le> min_eval"
proof (induction cells arbitrary: min_eval best_move)
  case Nil
  then show ?case by auto
next
  case (Cons cell cells)
  obtain row col where cell: "cell = (row, col)" by (cases cell)
  from Cons.prems obtain t m where
    c: "plain_minimax n (set_cell b row col ''X'') (depth + 1) True = Some (t, m)"
    unfolding cell by (auto split: option.splits)
  have "plain_min n b depth cells (if t < min_eval then t else min_eval)
          (if t < min_eval then Some (row, col) else best_move) = Some p"
    using Cons.prems c unfolding cell by simp
  from Cons.IH[OF this] show ?case by (auto split: if_splits)
qed

lemma alphabeta_max_exact:
  assumes IH: "\<And>b depth is_maximizing alpha beta p. alpha < beta \<Longrightarrow>
      plain_minimax n b depth is_maximizing = Some p \<Longrightarrow>
      \<exists>a. alphabeta n b depth is_maximizing alpha beta = Some a \<and> agrees alpha beta p a"
  shows "plain_max n b depth cells m best_move = Some p \<Longrightarrow> m < beta \<Longrightarrow>
     \<exists>a. alphabeta_max n b depth cells m best_move m beta = Some a
        \<and> (beta \<le> fst p \<longrightarrow> beta \<le> fst a) \<and> (fst p < beta \<longrightarrow> a = p)"
proof (induction cells arbitrary: m best_move)
  case Nil
  then show ?case by auto
next
  case (Cons cell cells)
  obtain row col where cell: "cell = (row, col)" by (cases cell)
  from Cons.prems(1) obtain t tm where
    c: "plain_minimax n (set_cell b row col ''O'') (depth + 1) False = Some (t, tm)"
    unfolding cell by (auto split: option.splits)
  have rest: "plain_max n b depth cells (if m < t then t else m)
          (if m < t then Some (row, col) else best_move) = Some p"
    using Cons.prems(1) c unfolding cell by simp
  from IH[OF Cons.prems(2) c] obtain v vm where
    a: "alphabeta n (set_cell b row col ''O'') (depth + 1) False m beta = Some (v, vm)"
    and ag: "agrees m beta (t, tm) (v, vm)" by auto
  consider (low) "t \<le> m" | (mid) "m < t" "t < beta" | (high) "beta \<le> t"
    by (meson not_le)
  then show ?case
  proof cases
    case low
    then have v: "v \<le> m" using ag by (simp add: agrees_def)
    then have mx: "max m v = m" by (simp add: max_absorb1)
    have "\<not> beta \<le> m" using Cons.prems(2) by simp
    moreover have "\<not> m < v" "\<not> m < t" using v low by simp_all
    ultimately show ?thesis
      using Cons.IH[of m best_move] rest Cons.prems(2) a mx unfolding cell by simp
  next
    case mid
    then have v: "v = t" using ag by (simp add: agrees_def)
    have mx: "max m t = t" using mid by (simp add: max_absorb2 less_imp_le)
    have "\<not> beta \<le> t" using mid by simp
    then show ?thesis
      using Cons.IH[of t "Some (row, col)"] rest mid a mx v unfolding cell by simp
  next
    case high
    then have v: "beta \<le> v" using ag by (simp add: agrees_def)
    then have mv: "m < v" using Cons.prems(2) by simp
    then have mx: "max m v = v" by (simp add: max_absorb2 less_imp_le)
    have "m < t" using high Cons.prems(2) by simp
    then have "t \<le> fst p" using plain_max_mono[OF rest] by simp
    then have bp: "beta \<le> fst p" using high by simp
    then have "\<not> fst p < beta" by (rule leD)
    then show ?thesis using a mx v mv bp unfolding cell by simp
  qed
qed

lemma alphabeta_max_below:
  assumes IH: "\<And>b depth is_maximizing alpha beta p. alpha < beta \<Longrightarrow>
      plain_minimax n b depth is_maximizing = Some p \<Longrightarrow>
      \<exists>a. alphabeta n b depth is_maximizing alpha beta = Some a \<and> agrees alpha beta p a"
  shows "plain_max n b depth cells m best_move = Some p \<Longrightarrow> alpha < beta \<Longrightarrow>
     m \<le> alpha \<Longrightarrow> e \<le> alpha \<Longrightarrow>
     \<exists>a. alphabeta_max n b depth cells e bm alpha beta = Some a \<and> agrees alpha beta p a"
proof (induction cells arbitrary: m best_move e bm)
  case Nil
  then show ?case by (auto simp add: agrees_def)
next
  case (Cons cell cells)
  obtain row col where cell: "cell = (row, col)" by (cases cell)
  from Cons.prems(1) obtain t tm where
    c: "plain_minimax n (set_cell b row col ''O'') (depth + 1) False = Some (t, tm)"
    unfolding cell by (auto split: option.splits)
  have rest: "plain_max n b depth cells (if m < t then t else m)
          (if m < t then Some (row, col) else best_move) = Some p"
    using Cons.prems(1) c unfolding cell by simp
  from IH[OF Cons.prems(2) c] obtain v vm where
    a: "alphabeta n (set_cell b row col ''O'') (depth + 1) False alpha beta = Some (v, vm)"
    and ag: "agrees alpha beta (t, tm) (v, vm)" by auto
  consider (low) "t \<le> alpha" | (mid) "alpha < t" "t < beta" | (high) "beta \<le> t"
    by (meson not_le)
  then show ?case
  proof cases
    case low
    then have v: "v \<le> alpha" using ag by (simp add: agrees_def)
    then have mx: "max alpha v = alpha" by (simp add: max_absorb1)
    have nb: "\<not> beta \<le> alpha" using Cons.prems(2) by simp
    have "(if m < t then t else m) \<le> alpha" "(if e < v then v else e) \<le> alpha"
      using low v Cons.prems(3,4) by simp_all
    from Cons.IH[OF rest Cons.prems(2) this]
    show ?thesis using a mx nb unfolding cell by simp
  next
    case mid
    then have v: "v = t" using ag by (simp add: agrees_def)
    have mx: "max alpha t = t" using mid by (simp add: max_absorb2 less_imp_le)
    have nb: "\<not> beta \<le> t" using mid by simp
    have mt: "m < t" "e < t" using mid Cons.prems(3,4) by simp_all
    then have rest': "plain_max n b depth cells t (Some (row, col)) = Some p" using rest by simp
    from alphabeta_max_exact[OF IH rest' mid(2)] obtain r where
      r: "alphabeta_max n b depth cells t (Some (row, col)) t beta = Some r"
      and r1: "beta \<le> fst p \<longrightarrow> beta \<le> fst r" and r2: "fst p < beta \<longrightarrow> r = p" by blast
    have "t \<le> fst p" using plain_max_mono[OF rest'] by simp
    then have "alpha < fst p" using mid by simp
    then have "agrees alpha beta p r" using r1 r2 by (simp add: agrees_def)
    then show ?thesis using a v mx nb mt r unfolding cell by simp
  next
    case high
    then have v: "beta \<le> v" using ag by (simp add: agrees_def)
    then have av: "alpha < v" using Cons.prems(2) by simp
    then have mx: "max alpha v = v" by (simp add: max_absorb2 less_imp_le)
    have "m < t" using high Cons.prems(2,3) by simp
    then have "t \<le> fst p" using plain_max_mono[OF rest] by simp
    then have "beta \<le> fst p" using high by simp
    then have "agrees alpha beta p (if e < v then v else e, if e < v then Some (row, col) else bm)"
      using v av Cons.prems(2,4) by (auto simp add: agrees_def)
    then show ?thesis using a mx v unfolding cell by simp
  qed
qed


lemma alphabeta_min_exact:
  assumes IH: "\<And>b depth is_maximizing alpha beta p. alpha < beta \<Longrightarrow>
      plain_minimax n b depth is_maximizing = Some p \<Longrightarrow>
      \<exists>a. alphabeta n b depth is_maximizing alpha beta = Some a \<and> agrees alpha beta p a"
  shows "plain_min n b depth cells m best_move = Some p \<Longrightarrow> alpha < m \<Longrightarrow>
     \<exists>a. alphabeta_min n b depth cells m best_move alpha m = Some a
        \<and> (fst p \<le> alpha \<longrightarrow> fst a \<le> alpha) \<and> (alpha < fst p \<longrightarrow> a = p)"
proof (induction cells arbitrary: m best_move)
  case Nil
  then show ?case by auto
next
  case (Cons cell cells)
  obtain row col where cell: "cell = (row, col)" by (cases cell)
  from Cons.prems(1) obtain t tm where
    c: "plain_minimax n (set_cell b row col ''X'') (depth + 1) True = Some (t, tm)"
    unfolding cell by (auto split: option.splits)
  have rest: "plain_min n b depth cells (if t < m then t else m)
          (if t < m then Some (row, col) else best_move) = Some p"
    using Cons.prems(1) c unfolding cell by simp
  from IH[OF Cons.prems(2) c] obtain v vm where
    a: "alphabeta n (set_cell b row col ''X'') (depth + 1) True alpha m = Some (v, vm)"
    and ag: "agrees alpha m (t, tm) (v, vm)" by auto
  consider (high) "m \<le> t" | (mid) "alpha < t" "t < m" | (low) "t \<le> alpha"
    by (meson not_le)
  then show ?case
  proof cases
    case high
    then have v: "m \<le> v" using ag by (simp add: agrees_def)
    then have mn: "min m v = m" by (simp add: min_absorb1)
    have "\<not> m \<le> alpha" using Cons.prems(2) by simp
    moreover have "\<not> v < m" "\<not> t < m" using v high by simp_all
    ultimately show ?thesis
      using Cons.IH[of m best_move] rest Cons.prems(2) a mn unfolding cell by simp
  next
    case mid
    then have v: "v = t" using ag by (simp add: agrees_def)
    have mn: "min m t = t" using mid by (simp add: min_absorb2 less_imp_le)
    have "\<not> t \<le> alpha" using mid by simp
    then show ?thesis
      using Cons.IH[of t "Some (row, col)"] rest mid a mn v unfolding cell by simp
  next
    case low
    then have v: "v \<le> alpha" using ag by (simp add: agrees_def)
    then have vm: "v < m" using Cons.prems(2) by simp
    then have mn: "min m v = v" by (simp add: min_absorb2 less_imp_le)
    have "t < m" using low Cons.prems(2) by simp
    then have "fst p \<le> t" using plain_min_mono[OF rest] by simp
    then have pa: "fst p \<le> alpha" using low by simp
    then have "\<not> alpha < fst p" by (rule leD)
    then show ?thesis using a mn v vm pa unfolding cell by simp
  qed
qed

lemma alphabeta_min_above:
  assumes IH: "\<And>b depth is_maximizing alpha beta p. alpha < beta \<Longrightarrow>
      plain_minimax n b depth is_maximizing = Some p \<Longrightarrow>
      \<exists>a. alphabeta n b depth is_maximizing alpha beta = Some a \<and> agrees alpha beta p a"
  shows "plain_min n b depth cells m best_move = Some p \<Longrightarrow> alpha < beta \<Longrightarrow>
     beta \<le> m \<Longrightarrow> beta \<le> e \<Longrightarrow>
     \<exists>a. alphabeta_min n b depth cells e bm alpha beta = Some a \<and> agrees alpha beta p a"
proof (induction cells arbitrary: m best_move e bm)
  case Nil
  then show ?case by (auto simp add: agrees_def)
next
  case (Cons cell cells)
  obtain row col where cell: "cell = (row, col)" by (cases cell)
  from Cons.prems(1) obtain t tm where
    c: "plain_minimax n (set_cell b row col ''X'') (depth + 1) True = Some (t, tm)"
    unfolding cell by (auto split: option.splits)
  have rest: "plain_min n b depth cells (if t < m then t else m)
          (if t < m then Some (row, col) else best_move) = Some p"
    using Cons.prems(1) c unfolding cell by simp
  from IH[OF Cons.prems(2) c] obtain v vm where
    a: "alphabeta n (set_cell b row col ''X'') (depth + 1) True alpha beta = Some (v, vm)"
    and ag: "agrees alpha beta (t, tm) (v, vm)" by auto
  consider (high) "beta \<le> t" | (mid) "alpha < t" "t < beta" | (low) "t \<le> alpha"
    by (meson not_le)
  then show ?case
  proof cases
    case high
    then have v: "beta \<le> v" using ag by (simp add: agrees_def)
    then have mn: "min beta v = beta" by (simp add: min_absorb1)
    have nb: "\<not> beta \<le> alpha" using Cons.prems(2) by simp
    have "beta \<le> (if t < m then t else m)" "beta \<le> (if v < e then v else e)"
      using high v Cons.prems(3,4) by simp_all
    from Cons.IH[OF rest Cons.prems(2) this]
    show ?thesis using a mn nb unfolding cell by simp
  next
    case mid
    then have v: "v = t" using ag by (simp add: agrees_def)
    have mn: "min beta t = t" using mid by (simp add: min_absorb2 less_imp_le)
    have nb: "\<not> t \<le> alpha" using mid by simp
    have mt: "t < m" "t < e" using mid Cons.prems(3,4) by simp_all
    then have rest': "plain_min n b depth cells t (Some (row, col)) = Some p" using rest by simp
    from alphabeta_min_exact[OF IH rest' mid(1)] obtain r where
      r: "alphabeta_min n b depth cells t (Some (row, col)) alpha t = Some r"
      and r1: "fst p \<le> alpha \<longrightarrow> fst r \<le> alpha" and r2: "alpha < fst p \<longrightarrow> r = p" by blast
    have "fst p \<le> t" using plain_min_mono[OF rest'] by simp
    then have "fst p < beta" using mid by simp
    then have "agrees alpha beta p r" using r1 r2 by (simp add: agrees_def)
    then show ?thesis using a v mn nb mt r unfolding cell by simp
  next
    case low
    then have v: "v \<le> alpha" using ag by (simp add: agrees_def)
    then have vb: "v < beta" using Cons.prems(2) by simp
    then have mn: "min beta v = v" by (simp add: min_absorb2 less_imp_le)
    have "t < m" using low Cons.prems(2,3) by simp
    then have "fst p \<le> t" using plain_min_mono[OF rest] by simp
    then have "fst p \<le> alpha" using low by simp
    then have "agrees alpha beta p (if v < e then v else e, if v < e then Some (row, col) else bm)"
      using v vb Cons.prems(2,4) by (auto simp add: agrees_def)
    then show ?thesis using a mn v unfolding cell by simp
  qed
qed

lemma alphabeta_agrees:
  "alpha < beta \<Longrightarrow> plain_minimax n b depth is_maximizing = Some p \<Longrightarrow>
     \<exists>a. alphabeta n b depth is_maximizing alpha beta = Some a \<and> agrees alpha beta p a"
proof (induction n arbitrary: b depth is_maximizing alpha beta p)
  case 0
  then show ?case by simp
next
  case (Suc n)
  show ?case
  proof (cases "check_winner b ''O'' \<or> check_winner b ''X'' \<or> get_empty_cells b = []")
    case True
    then show ?thesis using Suc.prems(2) by (auto simp add: agrees_refl)
  next
    case False
    show ?thesis
    proof (cases is_maximizing)
      case True
      then have "plain_max n b depth (get_empty_cells b) NegInf None = Some p"
        using False Suc.prems(2) by simp
      from alphabeta_max_below[OF Suc.IH this Suc.prems(1), of NegInf None]
      show ?thesis using False True by simp
    next
      case im: False
      then have "plain_min n b depth (get_empty_cells b) PosInf None = Some p"
        using False Suc.prems(2) by simp
      from alphabeta_min_above[OF Suc.IH this Suc.prems(1), of PosInf None]
      show ?thesis using False im by simp
    qed
  qed
qed

lemma plain_max_finite:
  assumes IH: "\<And>b depth is_maximizing p. plain_minimax n b depth is_maximizing = Some p
      \<Longrightarrow> \<exists>x. fst p = Fin x"
  shows "plain_max n b depth cells m best_move = Some p \<Longrightarrow> m \<noteq> PosInf \<Longrightarrow>
     cells \<noteq> [] \<or> m \<noteq> NegInf \<Longrightarrow> \<exists>x. fst p = Fin x"
proof (induction cells arbitrary: m best_move)
  case Nil
  then show ?case by (cases m) auto
next
  case (Cons cell cells)
  obtain row col where cell: "cell = (row, col)" by (cases cell)
  from Cons.prems(1) obtain t tm where
    c: "plain_minimax n (set_cell b row col ''O'') (depth + 1) False = Some (t, tm)"
    unfolding cell by (auto split: option.splits)
  have rest: "plain_max n b depth cells (if m < t then t else m)
          (if m < t then Some (row, col) else best_move) = Some p"
    using Cons.prems(1) c unfolding cell by simp
  obtain x where t: "t = Fin x" using IH[OF c] by auto
  have "(if m < t then t else m) \<noteq> PosInf" "(if m < t then t else m) \<noteq> NegInf"
    using t Cons.prems(2) by (cases m; simp)+
  then show ?case using Cons.IH[OF rest] by simp
qed

lemma plain_min_finite:
  assumes IH: "\<And>b depth is_maximizing p. plain_minimax n b depth is_maximizing = Some p
      \<Longrightarrow> \<exists>x. fst p = Fin x"
  shows "plain_min n b depth cells m best_move = Some p \<Longrightarrow> m \<noteq> NegInf \<Longrightarrow>
     cells \<noteq> [] \<or> m \<noteq> PosInf \<Longrightarrow> \<exists>x. fst p = Fin x"
proof (induction cells arbitrary: m best_move)
  case Nil
  then show ?case by (cases m) auto
next
  case (Cons cell cells)
  obtain row col where cell: "cell = (row, col)" by (cases cell)
  from Cons.prems(1) obtain t tm where
    c: "plain_minimax n (set_cell b row col ''X'') (depth + 1) True = Some (t, tm)"
    unfolding cell by (auto split: option.splits)
  have rest: "plain_min n b depth cells (if t < m then t else m)
          (if t < m then Some (row, col) else best_move) = Some p"
    using Cons.prems(1) c unfolding cell by simp
  obtain x where t: "t = Fin x" using IH[OF c] by auto
  have "(if t < m then t else m) \<noteq> NegInf" "(if t < m then t else m) \<noteq> PosInf"
    using t Cons.prems(2) by (cases m; simp)+
  then show ?case using Cons.IH[OF rest] by simp
qed

lemma plain_minimax_finite:
  "plain_minimax n b depth is_maximizing = Some p \<Longrightarrow> \<exists>x. fst p = Fin x"
proof (induction n arbitrary: b depth is_maximizing p)
  case 0
  then show ?case by simp
next
  case (Suc n)
  show ?case
  proof (cases "check_winner b ''O'' \<or> check_winner b ''X'' \<or> get_empty_cells b = []")
    case True
    then show ?thesis using Suc.prems by (auto split: if_splits)
  next
    case False
    show ?thesis
    proof (cases is_maximizing)
      case True
      then have "plain_max n b depth (get_empty_cells b) NegInf None = Some p"
        using False Suc.prems by simp
      from plain_max_finite[OF Suc.IH this] show ?thesis using False by simp
    next
      case im: False
      then have "plain_min n b depth (get_empty_cells b) PosInf None = Some p"
        using False Suc.prems by simp
      from plain_min_finite[OF Suc.IH this] show ?thesis using False by simp
    qed
  qed
qed

lemma alphabeta_full_window:
  assumes "plain_minimax n b depth is_maximizing = Some p"
  shows "alphabeta n b depth is_maximizing NegInf PosInf = Some p"
proof -
  obtain x where x: "fst p = Fin x" using plain_minimax_finite[OF assms] by blast
  have "NegInf < PosInf" by simp
  from alphabeta_agrees[OF this assms] obtain a where
    a: "alphabeta n b depth is_maximizing NegInf PosInf = Some a" and "agrees NegInf PosInf p a"
    by blast
  then have "a = p" using x by (simp add: agrees_def)
  then show ?thesis using a by simp
qed
lemma plain_max_total:
  assumes IH: "\<And>b depth is_maximizing.
      wf_board b \<Longrightarrow> length (get_empty_cells b) < n \<Longrightarrow>
      plain_minimax n b depth is_maximizing \<noteq> None"
    and "wf_board b" "length (get_empty_cells b) \<le> n" "set cells \<subseteq> set (get_empty_cells b)"
  shows "plain_max n b depth cells max_eval best_move \<noteq> None"
  using assms(4)
proof (induction cells arbitrary: max_eval best_move)
  case Nil
  show ?case by simp
next
  case (Cons cell cells)
  obtain row col where cell: "cell = (row, col)" by (cases cell)
  have m: "(row, col) \<in> set (get_empty_cells b)" and sub: "set cells \<subseteq> set (get_empty_cells b)"
    using Cons.prems cell by auto
  have "wf_board (set_cell b row col ''O'')" "length (get_empty_cells (set_cell b row col ''O'')) < n"
    using set_cell_fewer_empty[OF assms(2) m, of "''O''"] assms(3) by auto
  then obtain r where "plain_minimax n (set_cell b row col ''O'') (depth + 1) False = Some r"
    using IH by blast
  then show ?case using Cons.IH[OF sub] cell by (cases r) simp
qed

lemma plain_min_total:
  assumes IH: "\<And>b depth is_maximizing.
      wf_board b \<Longrightarrow> length (get_empty_cells b) < n \<Longrightarrow>
      plain_minimax n b depth is_maximizing \<noteq> None"
    and "wf_board b" "length (get_empty_cells b) \<le> n" "set cells \<subseteq> set (get_empty_cells b)"
  shows "plain_min n b depth cells min_eval best_move \<noteq> None"
  using assms(4)
proof (induction cells arbitrary: min_eval best_move)
  case Nil
  show ?case by simp
next
  case (Cons cell cells)
  obtain row col where cell: "cell = (row, col)" by (cases cell)
  have m: "(row, col) \<in> set (get_empty_cells b)" and sub: "set cells \<subseteq> set (get_empty_cells b)"
    using Cons.prems cell by auto
  have "wf_board (set_cell b row col ''X'')" "length (get_empty_cells (set_cell b row col ''X'')) < n"
    using set_cell_fewer_empty[OF assms(2) m, of "''X''"] assms(3) by auto
  then obtain r where "plain_minimax n (set_cell b row col ''X'') (depth + 1) True = Some r"
    using IH by blast
  then show ?case using Cons.IH[OF sub] cell by (cases r) simp
qed

lemma plain_minimax_total:
  "wf_board b \<Longrightarrow> length (get_empty_cells b) < n \<Longrightarrow>
     plain_minimax n b depth is_maximizing \<noteq> None"
proof (induction n arbitrary: b depth is_maximizing)
  case 0
  then show ?case by simp
next
  case (Suc n)
  have le: "length (get_empty_cells b) \<le> n" using Suc.prems by simp
  show ?case
    using plain_max_total[OF Suc.IH Suc.prems(1) le subset_refl]
      plain_min_total[OF Suc.IH Suc.prems(1) le subset_refl]
    by simp
qed


section \<open>Claims about the search\<close>

lemma minimax_returns:
  assumes "wf_board (board g)" "length (get_empty_cells (board g)) < n"
  shows "\<exists>g' r. minimax n g depth is_maximizing alpha beta = Some (g', r)
           \<and> alphabeta n (board g) depth is_maximizing alpha beta = Some r
           \<and> same_but_counters g g'"
proof -
  obtain r where r: "alphabeta n (board g) depth is_maximizing alpha beta = Some r"
    using alphabeta_total[OF assms] by blast
  have "refines g (minimax n g depth is_maximizing alpha beta) (Some r)"
    using minimax_refines(1)[of g n depth is_maximizing alpha beta] r by simp
  then show ?thesis using r by (auto simp add: refines_def split: option.splits)
qed

lemma minimax_board:
  "minimax n g depth is_maximizing alpha beta = Some (g', r) \<Longrightarrow> board g' = board g"
  using minimax_refines(1)[of g n depth is_maximizing alpha beta]
  by (simp add: refines_Some same_but_counters_board)

text \<open>
  C4: on every 3-by-3 board, with fuel above the number of empty cells, a search call
  (\<open>minimax\<close> with any depth, side and window, and \<open>get_ai_move\<close>) returns, and the board
  of the state it returns is the board it was started on: every placement made during
  the search has been cleared again, also on the paths that leave a loop by a cut-off.
\<close>

theorem search_restores_board:
  assumes "wf_board (board g)" "length (get_empty_cells (board g)) < n"
  shows "(\<exists>g' r. minimax n g depth is_maximizing alpha beta = Some (g', r) \<and> board g' = board g)
         \<and> (\<exists>g' mv. get_ai_move n g = Some (g', mv) \<and> board g' = board g)"
proof
  show "\<exists>g' r. minimax n g depth is_maximizing alpha beta = Some (g', r) \<and> board g' = board g"
    using minimax_returns[OF assms] same_but_counters_board by blast
  obtain g' s m where m: "minimax n g 0 True NegInf PosInf = Some (g', s, m)"
    using minimax_returns[OF assms, of 0 True NegInf PosInf] by auto
  then have "board g' = board g" by (rule minimax_board)
  then show "\<exists>g' mv. get_ai_move n g = Some (g', mv) \<and> board g' = board g"
    using m by (auto simp add: get_ai_move_def split: option.splits list.splits)
qed

theorem search_restores_board_witness:
  "(\<exists>g' r. minimax 10 init_game 0 True NegInf PosInf = Some (g', r) \<and> board g' = board init_game)
   \<and> (\<exists>g' mv. get_ai_move 10 init_game = Some (g', mv) \<and> board g' = board init_game)"
proof -
  have wf: "wf_board (board init_game)" by code_simp
  have n: "length (get_empty_cells (board init_game)) < 10" by code_simp
  show ?thesis using search_restores_board[OF wf n] by simp
qed

text \<open>
  C8: the counters are not reset when a search starts.  On every 3-by-3 board, with fuel
  above the number of empty cells, a call of \<open>minimax\<close> (any depth, side and window) and
  a call of \<open>get_ai_move\<close> return, and in the state they return \<open>nodes_explored\<close> is
  its value before the call plus one for each call of \<open>minimax\<close> the search made, and
  \<open>depth_reached\<close> is its value before the call raised, by \<open>max\<close>, by the depth of each
  of those calls; the first of them is the call itself at its own depth.  \<open>make_move\<close>
  does not touch the counters; \<open>reset_game\<close> sets both to zero.
\<close>

theorem counters_accumulate:
  assumes "wf_board (board g)" "length (get_empty_cells (board g)) < n"
  shows "(\<exists>g' r. minimax n g depth is_maximizing alpha beta = Some (g', r)
            \<and> nodes_explored g'
                = nodes_explored g + int (length (visited n (board g) depth is_maximizing alpha beta))
            \<and> depth_reached g'
                = fold max (visited n (board g) depth is_maximizing alpha beta) (depth_reached g))
       \<and> (\<exists>g' mv. get_ai_move n g = Some (g', mv)
            \<and> nodes_explored g'
                = nodes_explored g + int (length (visited n (board g) 0 True NegInf PosInf))
            \<and> depth_reached g'
                = fold max (visited n (board g) 0 True NegInf PosInf) (depth_reached g)
            \<and> nodes_explored (fst (make_move g' row col player)) = nodes_explored g'
            \<and> depth_reached (fst (make_move g' row col player)) = depth_reached g'
            \<and> nodes_explored (reset_game g') = 0 \<and> depth_reached (reset_game g') = 0)
       \<and> hd (visited n (board g) depth is_maximizing alpha beta) = depth
       \<and> 0 < length (visited n (board g) depth is_maximizing alpha beta)"
proof (intro conjI)
  obtain g' r where m: "minimax n g depth is_maximizing alpha beta = Some (g', r)"
    using minimax_returns[OF assms, of depth is_maximizing alpha beta] by blast
  then have "counted g (visited n (board g) depth is_maximizing alpha beta) g'"
    by (rule minimax_counted(1))
  then show "\<exists>g' r. minimax n g depth is_maximizing alpha beta = Some (g', r)
            \<and> nodes_explored g'
                = nodes_explored g + int (length (visited n (board g) depth is_maximizing alpha beta))
            \<and> depth_reached g'
                = fold max (visited n (board g) depth is_maximizing alpha beta) (depth_reached g)"
    using m by (auto simp add: counted_def)
next
  obtain g' s mo where m: "minimax n g 0 True NegInf PosInf = Some (g', s, mo)"
    using minimax_returns[OF assms, of 0 True NegInf PosInf] by auto
  then have c: "counted g (visited n (board g) 0 True NegInf PosInf) g'"
    by (rule minimax_counted(1))
  have "\<exists>mv. get_ai_move n g = Some (g', mv)"
    using m by (cases mo; cases "get_empty_cells (board g')") (simp_all add: get_ai_move_def)
  then obtain mv where a: "get_ai_move n g = Some (g', mv)" by blast
  have mk: "nodes_explored (fst (make_move g' row col player)) = nodes_explored g'
         \<and> depth_reached (fst (make_move g' row col player)) = depth_reached g'"
    using make_move_counters[of g' row col player] by (cases "make_move g' row col player") simp
  show "\<exists>g' mv. get_ai_move n g = Some (g', mv)
            \<and> nodes_explored g'
                = nodes_explored g + int (length (visited n (board g) 0 True NegInf PosInf))
            \<and> depth_reached g'
                = fold max (visited n (board g) 0 True NegInf PosInf) (depth_reached g)
            \<and> nodes_explored (fst (make_move g' row col player)) = nodes_explored g'
            \<and> depth_reached (fst (make_move g' row col player)) = depth_reached g'
            \<and> nodes_explored (reset_game g') = 0 \<and> depth_reached (reset_game g') = 0"
    using a c mk by (auto simp add: counted_def reset_game_def)
next
  obtain k where "n = Suc k" using assms(2) by (cases n) auto
  then show "hd (visited n (board g) depth is_maximizing alpha beta) = depth"
    and "0 < length (visited n (board g) depth is_maximizing alpha beta)"
    by simp_all
qed

theorem counters_accumulate_witness:
  "\<exists>g' mv. get_ai_move 10
       (init_game\<lparr>board := [[''X'', ''X'', ''O''], [''O'', ''O'', ''X''], [''X'', ''O'', '' '']],
          nodes_explored := 5\<rparr>) = Some (g', mv)
     \<and> nodes_explored g' = 7 \<and> depth_reached g' = 1
     \<and> nodes_explored (reset_game g') = 0 \<and> depth_reached (reset_game g') = 0"
proof -
  let ?g = "init_game\<lparr>board := [[''X'', ''X'', ''O''], [''O'', ''O'', ''X''], [''X'', ''O'', '' '']],
          nodes_explored := 5\<rparr>"
  have wf: "wf_board (board ?g)" by code_simp
  have n: "length (get_empty_cells (board ?g)) < 10" by code_simp
  have v: "visited 10 (board ?g) 0 True NegInf PosInf = [0, 1]" by code_simp
  have c: "nodes_explored ?g = 5" "depth_reached ?g = 0" by (simp_all add: init_game_def)
  show ?thesis
    using counters_accumulate[OF wf n, where depth = 0 and is_maximizing = True
        and alpha = NegInf and beta = PosInf and row = 0 and col = 0 and player = "''X''"]
    unfolding v c by auto
qed

text \<open>
  C9: on a board where \<open>'O'\<close> or \<open>'X'\<close> already has a full line and an empty cell
  remains, \<open>minimax\<close> returns no move for the terminal position and \<open>get_ai_move\<close> does
  not raise: it returns the first empty cell in row-major order.
\<close>

theorem get_ai_move_falls_back:
  assumes "check_winner (board g) ''O'' \<or> check_winner (board g) ''X''"
    and "get_empty_cells (board g) = cell # cells"
  shows "\<exists>g' s. minimax (Suc n) g 0 True NegInf PosInf = Some (g', s, None)
           \<and> get_ai_move (Suc n) g = Some (g', Return cell)"
  using assms by (auto simp add: get_ai_move_def Let_def)

theorem get_ai_move_falls_back_witness:
  "\<exists>g' s. minimax (Suc 0)
       (init_game\<lparr>board := [[''X'', ''X'', ''X''], [''O'', ''O'', '' ''], ['' '', '' '', '' '']]\<rparr>)
       0 True NegInf PosInf = Some (g', s, None)
     \<and> get_ai_move (Suc 0)
         (init_game\<lparr>board := [[''X'', ''X'', ''X''], [''O'', ''O'', '' ''], ['' '', '' '', '' '']]\<rparr>)
       = Some (g', Return (1, 2))"
proof -
  let ?g = "init_game\<lparr>board := [[''X'', ''X'', ''X''], [''O'', ''O'', '' ''], ['' '', '' '', '' '']]\<rparr>"
  have w: "check_winner (board ?g) ''O'' \<or> check_winner (board ?g) ''X''" by code_simp
  have c: "get_empty_cells (board ?g) = (1, 2) # [(2, 0), (2, 1), (2, 2)]" by code_simp
  show ?thesis by (rule get_ai_move_falls_back[OF w c])
qed

section \<open>Evaluation rules\<close>

lemmas cell_defs = c00_def c01_def c02_def c10_def c11_def c12_def c20_def c21_def c22_def

lemma mark_eq:
  "(mE = mX) = False" "(mE = mO) = False" "(mX = mE) = False"
  "(mX = mO) = False" "(mO = mE) = False" "(mO = mX) = False"
  by (simp_all add: mE_def mX_def mO_def)

lemma line3_eval:
  "line3 p a b c = (if a = p then (if b = p then c = p else False) else False)"
  by (simp add: line3_def)

lemma check_winner_lines:
  "check_winner (grid a b c d e f g h i) p =
     (if line3 p a b c then True else if line3 p a d g then True
      else if line3 p d e f then True else if line3 p b e h then True
      else if line3 p g h i then True else if line3 p c f i then True
      else if line3 p a e i then True else line3 p c e g)"
  unfolding check_winner_def upt3 grid_def line3_def by (simp add: nth3 BOARD_SIZE_def numeral_2_eq_2)

lemma empty_cells_grid:
  "get_empty_cells (grid a b c d e f g h i) =
     (if a = mE then [c00] else []) @ (if b = mE then [c01] else [])
     @ (if c = mE then [c02] else []) @ (if d = mE then [c10] else [])
     @ (if e = mE then [c11] else []) @ (if f = mE then [c12] else [])
     @ (if g = mE then [c20] else []) @ (if h = mE then [c21] else [])
     @ (if i = mE then [c22] else [])"
  unfolding get_empty_cells_grid mE_def cell_defs by simp

lemma alphabeta_Suc:
  "alphabeta (Suc n) b depth is_maximizing alpha beta =
     (if check_winner b mO then Some (Fin (10 - depth), None)
      else if check_winner b mX then Some (Fin (depth - 10), None)
      else if get_empty_cells b = [] then Some (Fin 0, None)
      else if is_maximizing
        then alphabeta_max n b depth (get_empty_cells b) NegInf None alpha beta
        else alphabeta_min n b depth (get_empty_cells b) PosInf None alpha beta)"
  by (simp add: mO_def mX_def)

lemma max_next_Some:
  "max_next n b depth cells mv max_eval best_move alpha beta (Some (eval_score, m)) =
     (if beta \<le> max alpha eval_score
          then Some ((if eval_score > max_eval then eval_score else max_eval),
                     (if eval_score > max_eval then Some mv else best_move))
          else alphabeta_max n b depth cells (if eval_score > max_eval then eval_score else max_eval)
                 (if eval_score > max_eval then Some mv else best_move)
                 (max alpha eval_score) beta)"
  by (simp add: max_next_def)

lemma min_next_Some:
  "min_next n b depth cells mv min_eval best_move alpha beta (Some (eval_score, m)) =
     (if min beta eval_score \<le> alpha
          then Some ((if eval_score < min_eval then eval_score else min_eval),
                     (if eval_score < min_eval then Some mv else best_move))
          else alphabeta_min n b depth cells (if eval_score < min_eval then eval_score else min_eval)
                 (if eval_score < min_eval then Some mv else best_move)
                 alpha (min beta eval_score))"
  by (simp add: min_next_def)

lemma alphabeta_max_grid:
  "alphabeta_max n (grid a b c d e f g h i) dep (c00 # cs) me bm al be = max_next n (grid a b c d e f g h i) dep cs c00 me bm al be (alphabeta n (grid mO b c d e f g h i) (dep + 1) False al be)"
  "alphabeta_max n (grid a b c d e f g h i) dep (c01 # cs) me bm al be = max_next n (grid a b c d e f g h i) dep cs c01 me bm al be (alphabeta n (grid a mO c d e f g h i) (dep + 1) False al be)"
  "alphabeta_max n (grid a b c d e f g h i) dep (c02 # cs) me bm al be = max_next n (grid a b c d e f g h i) dep cs c02 me bm al be (alphabeta n (grid a b mO d e f g h i) (dep + 1) False al be)"
  "alphabeta_max n (grid a b c d e f g h i) dep (c10 # cs) me bm al be = max_next n (grid a b c d e f g h i) dep cs c10 me bm al be (alphabeta n (grid a b c mO e f g h i) (dep + 1) False al be)"
  "alphabeta_max n (grid a b c d e f g h i) dep (c11 # cs) me bm al be = max_next n (grid a b c d e f g h i) dep cs c11 me bm al be (alphabeta n (grid a b c d mO f g h i) (dep + 1) False al be)"
  "alphabeta_max n (grid a b c d e f g h i) dep (c12 # cs) me bm al be = max_next n (grid a b c d e f g h i) dep cs c12 me bm al be (alphabeta n (grid a b c d e mO g h i) (dep + 1) False al be)"
  "alphabeta_max n (grid a b c d e f g h i) dep (c20 # cs) me bm al be = max_next n (grid a b c d e f g h i) dep cs c20 me bm al be (alphabeta n (grid a b c d e f mO h i) (dep + 1) False al be)"
  "alphabeta_max n (grid a b c d e f g h i) dep (c21 # cs) me bm al be = max_next n (grid a b c d e f g h i) dep cs c21 me bm al be (alphabeta n (grid a b c d e f g mO i) (dep + 1) False al be)"
  "alphabeta_max n (grid a b c d e f g h i) dep (c22 # cs) me bm al be = max_next n (grid a b c d e f g h i) dep cs c22 me bm al be (alphabeta n (grid a b c d e f g h mO) (dep + 1) False al be)"
  by (simp_all add: max_next_def grid_def cell_defs set_cell_def mO_def numeral_2_eq_2 split: option.split)

lemma alphabeta_min_grid:
  "alphabeta_min n (grid a b c d e f g h i) dep (c00 # cs) me bm al be = min_next n (grid a b c d e f g h i) dep cs c00 me bm al be (alphabeta n (grid mX b c d e f g h i) (dep + 1) True al be)"
  "alphabeta_min n (grid a b c d e f g h i) dep (c01 # cs) me bm al be = min_next n (grid a b c d e f g h i) dep cs c01 me bm al be (alphabeta n (grid a mX c d e f g h i) (dep + 1) True al be)"
  "alphabeta_min n (grid a b c d e f g h i) dep (c02 # cs) me bm al be = min_next n (grid a b c d e f g h i) dep cs c02 me bm al be (alphabeta n (grid a b mX d e f g h i) (dep + 1) True al be)"
  "alphabeta_min n (grid a b c d e f g h i) dep (c10 # cs) me bm al be = min_next n (grid a b c d e f g h i) dep cs c10 me bm al be (alphabeta n (grid a b c mX e f g h i) (dep + 1) True al be)"
  "alphabeta_min n (grid a b c d e f g h i) dep (c11 # cs) me bm al be = min_next n (grid a b c d e f g h i) dep cs c11 me bm al be (alphabeta n (grid a b c d mX f g h i) (dep + 1) True al be)"
  "alphabeta_min n (grid a b c d e f g h i) dep (c12 # cs) me bm al be = min_next n (grid a b c d e f g h i) dep cs c12 me bm al be (alphabeta n (grid a b c d e mX g h i) (dep + 1) True al be)"
  "alphabeta_min n (grid a b c d e f g h i) dep (c20 # cs) me bm al be = min_next n (grid a b c d e f g h i) dep cs c20 me bm al be (alphabeta n (grid a b c d e f mX h i) (dep + 1) True al be)"
  "alphabeta_min n (grid a b c d e f g h i) dep (c21 # cs) me bm al be = min_next n (grid a b c d e f g h i) dep cs c21 me bm al be (alphabeta n (grid a b c d e f g mX i) (dep + 1) True al be)"
  "alphabeta_min n (grid a b c d e f g h i) dep (c22 # cs) me bm al be = min_next n (grid a b c d e f g h i) dep cs c22 me bm al be (alphabeta n (grid a b c d e f g h mX) (dep + 1) True al be)"
  by (simp_all add: min_next_def grid_def cell_defs set_cell_def mX_def numeral_2_eq_2 split: option.split)

lemma score_less_eval:
  "(NegInf < Fin a) = True" "(Fin a < PosInf) = True" "(NegInf < PosInf) = True"
  "(Fin a < Fin b) = (a < b)" "(Fin a < NegInf) = False" "(PosInf < Fin a) = False"
  "(PosInf < NegInf) = False" "(PosInf < PosInf) = False" "(NegInf < NegInf) = False"
  by (auto simp add: less_score_def less_eq_score_def)

lemma score_le_eval:
  "(NegInf \<le> Fin a) = True" "(NegInf \<le> PosInf) = True" "(Fin a \<le> PosInf) = True"
  "(Fin a \<le> Fin b) = (a \<le> b)"
  "(Fin a \<le> NegInf) = False" "(PosInf \<le> Fin a) = False" "(PosInf \<le> NegInf) = False"
  by (simp_all add: less_eq_score_def)

lemma score_max_eval:
  "max NegInf (Fin a) = Fin a" "max (Fin a) (Fin b) = Fin (max a b)" "max PosInf (Fin a) = PosInf"
  "min PosInf (Fin a) = Fin a" "min (Fin a) (Fin b) = Fin (min a b)" "min NegInf (Fin a) = NegInf"
  by (simp_all add: max_def min_def less_eq_score_def)

lemmas search_eval = alphabeta_Suc alphabeta_max_grid alphabeta_min_grid max_next_Some min_next_Some
  mark_eq line3_eval check_winner_lines empty_cells_grid score_less_eval score_le_eval score_max_eval

section \<open>The searches of the optimal game, evaluated\<close>

text \<open>
  The nine searches of the game in which both sides follow \<open>minimax\<close>, the first one
  split into the nine subtrees of the opening moves, and the search of the position
  with two \<open>'X'\<close> in the top row.
\<close>

lemma opening_00:
  "alphabeta (Suc (Suc (Suc (Suc (Suc (Suc (Suc (Suc (Suc (m)))))))))) (grid mX mE mE mE mE mE mE mE mE) 1 True NegInf (PosInf) = Some (Fin 0, Some c11)"
  by (simp add: search_eval del: alphabeta.simps(2) alphabeta_max.simps(2) alphabeta_min.simps(2) split del: if_split)

lemma opening_01:
  "alphabeta (Suc (Suc (Suc (Suc (Suc (Suc (Suc (Suc (Suc (m)))))))))) (grid mE mX mE mE mE mE mE mE mE) 1 True NegInf (Fin 0) = Some (Fin 0, Some c00)"
  by (simp add: search_eval del: alphabeta.simps(2) alphabeta_max.simps(2) alphabeta_min.simps(2) split del: if_split)

lemma opening_02:
  "alphabeta (Suc (Suc (Suc (Suc (Suc (Suc (Suc (Suc (Suc (m)))))))))) (grid mE mE mX mE mE mE mE mE mE) 1 True NegInf (Fin 0) = Some (Fin 0, Some c11)"
  by (simp add: search_eval del: alphabeta.simps(2) alphabeta_max.simps(2) alphabeta_min.simps(2) split del: if_split)

lemma opening_10:
  "alphabeta (Suc (Suc (Suc (Suc (Suc (Suc (Suc (Suc (Suc (m)))))))))) (grid mE mE mE mX mE mE mE mE mE) 1 True NegInf (Fin 0) = Some (Fin 0, Some c00)"
  by (simp add: search_eval del: alphabeta.simps(2) alphabeta_max.simps(2) alphabeta_min.simps(2) split del: if_split)

lemma opening_11:
  "alphabeta (Suc (Suc (Suc (Suc (Suc (Suc (Suc (Suc (Suc (m)))))))))) (grid mE mE mE mE mX mE mE mE mE) 1 True NegInf (Fin 0) = Some (Fin 0, Some c00)"
  by (simp add: search_eval del: alphabeta.simps(2) alphabeta_max.simps(2) alphabeta_min.simps(2) split del: if_split)

lemma opening_12:
  "alphabeta (Suc (Suc (Suc (Suc (Suc (Suc (Suc (Suc (Suc (m)))))))))) (grid mE mE mE mE mE mX mE mE mE) 1 True NegInf (Fin 0) = Some (Fin 0, Some c02)"
  by (simp add: search_eval del: alphabeta.simps(2) alphabeta_max.simps(2) alphabeta_min.simps(2) split del: if_split)

lemma opening_20:
  "alphabeta (Suc (Suc (Suc (Suc (Suc (Suc (Suc (Suc (Suc (m)))))))))) (grid mE mE mE mE mE mE mX mE mE) 1 True NegInf (Fin 0) = Some (Fin 0, Some c11)"
  by (simp add: search_eval del: alphabeta.simps(2) alphabeta_max.simps(2) alphabeta_min.simps(2) split del: if_split)

lemma opening_21:
  "alphabeta (Suc (Suc (Suc (Suc (Suc (Suc (Suc (Suc (Suc (m)))))))))) (grid mE mE mE mE mE mE mE mX mE) 1 True NegInf (Fin 0) = Some (Fin 0, Some c01)"
  by (simp add: search_eval del: alphabeta.simps(2) alphabeta_max.simps(2) alphabeta_min.simps(2) split del: if_split)

lemma opening_22:
  "alphabeta (Suc (Suc (Suc (Suc (Suc (Suc (Suc (Suc (Suc (m)))))))))) (grid mE mE mE mE mE mE mE mE mX) 1 True NegInf (Fin 0) = Some (Fin 0, Some c11)"
  by (simp add: search_eval del: alphabeta.simps(2) alphabeta_max.simps(2) alphabeta_min.simps(2) split del: if_split)

lemma opening_root:
  "alphabeta (Suc (Suc (Suc (Suc (Suc (Suc (Suc (Suc (Suc (Suc (m))))))))))) (grid mE mE mE mE mE mE mE mE mE) 0 False NegInf PosInf
     = alphabeta_min (Suc (Suc (Suc (Suc (Suc (Suc (Suc (Suc (Suc (m)))))))))) (grid mE mE mE mE mE mE mE mE mE) 0 [c00, c01, c02, c10, c11, c12, c20, c21, c22] PosInf None NegInf PosInf"
  by (simp add: alphabeta_Suc mark_eq line3_eval check_winner_lines empty_cells_grid
        del: alphabeta.simps(2) alphabeta_max.simps(2) alphabeta_min.simps(2) split del: if_split)

lemma play_1:
  "alphabeta (Suc (Suc (Suc (Suc (Suc (Suc (Suc (Suc (Suc (Suc (m))))))))))) (grid mE mE mE mE mE mE mE mE mE) 0 False NegInf PosInf = Some (Fin 0, Some c00)"
  unfolding opening_root
  by (simp add: alphabeta_min_grid min_next_Some score_less_eval score_le_eval score_max_eval opening_00 opening_01 opening_02 opening_10 opening_11 opening_12 opening_20 opening_21 opening_22
        del: alphabeta.simps(2) alphabeta_max.simps(2) alphabeta_min.simps(2) split del: if_split)

lemma play_2:
  "alphabeta (Suc (Suc (Suc (Suc (Suc (Suc (Suc (Suc (Suc (Suc (m))))))))))) (grid mX mE mE mE mE mE mE mE mE) 0 True NegInf PosInf = Some (Fin 0, Some c11)"
  by (simp add: search_eval del: alphabeta.simps(2) alphabeta_max.simps(2) alphabeta_min.simps(2) split del: if_split)

lemma play_3:
  "alphabeta (Suc (Suc (Suc (Suc (Suc (Suc (Suc (Suc (Suc (Suc (m))))))))))) (grid mX mE mE mE mO mE mE mE mE) 0 False NegInf PosInf = Some (Fin 0, Some c01)"
  by (simp add: search_eval del: alphabeta.simps(2) alphabeta_max.simps(2) alphabeta_min.simps(2) split del: if_split)

lemma play_4:
  "alphabeta (Suc (Suc (Suc (Suc (Suc (Suc (Suc (Suc (Suc (Suc (m))))))))))) (grid mX mX mE mE mO mE mE mE mE) 0 True NegInf PosInf = Some (Fin 0, Some c02)"
  by (simp add: search_eval del: alphabeta.simps(2) alphabeta_max.simps(2) alphabeta_min.simps(2) split del: if_split)

lemma play_5:
  "alphabeta (Suc (Suc (Suc (Suc (Suc (Suc (Suc (Suc (Suc (Suc (m))))))))))) (grid mX mX mO mE mO mE mE mE mE) 0 False NegInf PosInf = Some (Fin 0, Some c20)"
  by (simp add: search_eval del: alphabeta.simps(2) alphabeta_max.simps(2) alphabeta_min.simps(2) split del: if_split)

lemma play_6:
  "alphabeta (Suc (Suc (Suc (Suc (Suc (Suc (Suc (Suc (Suc (Suc (m))))))))))) (grid mX mX mO mE mO mE mX mE mE) 0 True NegInf PosInf = Some (Fin 0, Some c10)"
  by (simp add: search_eval del: alphabeta.simps(2) alphabeta_max.simps(2) alphabeta_min.simps(2) split del: if_split)

lemma play_7:
  "alphabeta (Suc (Suc (Suc (Suc (Suc (Suc (Suc (Suc (Suc (Suc (m))))))))))) (grid mX mX mO mO mO mE mX mE mE) 0 False NegInf PosInf = Some (Fin 0, Some c12)"
  by (simp add: search_eval del: alphabeta.simps(2) alphabeta_max.simps(2) alphabeta_min.simps(2) split del: if_split)

lemma play_8:
  "alphabeta (Suc (Suc (Suc (Suc (Suc (Suc (Suc (Suc (Suc (Suc (m))))))))))) (grid mX mX mO mO mO mX mX mE mE) 0 True NegInf PosInf = Some (Fin 0, Some c21)"
  by (simp add: search_eval del: alphabeta.simps(2) alphabeta_max.simps(2) alphabeta_min.simps(2) split del: if_split)

lemma play_9:
  "alphabeta (Suc (Suc (Suc (Suc (Suc (Suc (Suc (Suc (Suc (Suc (m))))))))))) (grid mX mX mO mO mO mX mX mO mE) 0 False NegInf PosInf = Some (Fin 0, Some c22)"
  by (simp add: search_eval del: alphabeta.simps(2) alphabeta_max.simps(2) alphabeta_min.simps(2) split del: if_split)

lemma top_row_search:
  "alphabeta (Suc (Suc (Suc (Suc (Suc (Suc (Suc (Suc m)))))))) (grid mX mX mE mE mE mE mE mE mE) 0 False NegInf PosInf
     = Some (Fin (- 9), Some c02)"
  by (simp add: search_eval del: alphabeta.simps(2) alphabeta_max.simps(2) alphabeta_min.simps(2) split del: if_split)

section \<open>From the evaluated search to the game\<close>

lemma minimax_from_alphabeta:
  assumes "alphabeta n (board g) depth is_maximizing alpha beta = Some r"
  shows "\<exists>k e. minimax n g depth is_maximizing alpha beta
           = Some (g\<lparr>nodes_explored := k, depth_reached := e\<rparr>, r)"
proof (cases "minimax n g depth is_maximizing alpha beta")
  case None
  then show ?thesis
    using minimax_refines(1)[of g n depth is_maximizing alpha beta] assms by (simp add: refines_None)
next
  case (Some x)
  obtain g' r' where x: "x = (g', r')" by (cases x)
  have r: "r' = r" and "same_but_counters g g'"
    using minimax_refines(1)[of g n depth is_maximizing alpha beta] assms Some x
    by (simp_all add: refines_Some)
  then have e: "g' = g\<lparr>nodes_explored := nodes_explored g', depth_reached := depth_reached g'\<rparr>"
    by (simp add: same_but_counters_def)
  show ?thesis
  proof (intro exI)
    show "minimax n g depth is_maximizing alpha beta
            = Some (g\<lparr>nodes_explored := nodes_explored g', depth_reached := depth_reached g'\<rparr>, r)"
      unfolding e[symmetric] using Some x r by simp
  qed
qed

lemma self_play_step:
  assumes "alphabeta fuel b 0 (p = ''O'') NegInf PosInf = Some (s, Some (row, col))"
    and "\<And>k e. make_move (playing b p mm k e) (int row) (int col) p = (G k e, Return True)"
  shows "\<exists>k' e'. self_play (Suc t) fuel (playing b p mm k e) = self_play t fuel (G k' e')"
proof -
  have "board (playing b p mm k e) = b" by (simp add: playing_def)
  then obtain k' e' where
    "minimax fuel (playing b p mm k e) 0 (p = ''O'') NegInf PosInf
       = Some ((playing b p mm k e)\<lparr>nodes_explored := k', depth_reached := e'\<rparr>, s, Some (row, col))"
    using minimax_from_alphabeta[of fuel "playing b p mm k e" 0 "p = ''O''" NegInf PosInf] assms(1)
    by auto
  then have m: "minimax fuel (playing b p mm k e) 0 (p = ''O'') NegInf PosInf
       = Some (playing b p mm k' e', s, Some (row, col))"
    by (simp add: playing_def)
  have "self_play (Suc t) fuel (playing b p mm k e) = self_play t fuel (G k' e')"
    using m assms(2)[of k' e'] by (simp add: playing_def)
  then show ?thesis by blast
qed

lemma self_play_step_X:
  assumes "alphabeta fuel b 0 False NegInf PosInf = Some (s, Some (row, col))"
    and "\<And>k e. make_move (playing b ''X'' mm k e) (int row) (int col) ''X'' = (G k e, Return True)"
  shows "\<exists>k' e'. self_play (Suc t) fuel (playing b ''X'' mm k e) = self_play t fuel (G k' e')"
  using self_play_step[of fuel b "''X''" s row col mm G t k e] assms by simp

lemma self_play_step_O:
  assumes "alphabeta fuel b 0 True NegInf PosInf = Some (s, Some (row, col))"
    and "\<And>k e. make_move (playing b ''O'' mm k e) (int row) (int col) ''O'' = (G k e, Return True)"
  shows "\<exists>k' e'. self_play (Suc t) fuel (playing b ''O'' mm k e) = self_play t fuel (G k' e')"
  using self_play_step[of fuel b "''O''" s row col mm G t k e] assms by simp

lemma init_game_playing:
  "init_game = playing [['' '', '' '', '' ''], ['' '', '' '', '' ''], ['' '', '' '', '' '']] ''X'' 0 0 0"
  by (simp add: init_game_def playing_def empty_board_eq BOARD_SIZE_def)

lemmas make_move_eval = make_move_def playing_def py_index_def set_cell_def
  check_winner_lines[unfolded grid_def] line3_eval Let_def

lemmas unfold_grid = grid_def mE_def mX_def mO_def cell_defs

lemma move_1:
  "make_move (playing [['' '', '' '', '' ''], ['' '', '' '', '' ''], ['' '', '' '', '' '']] ''X'' 0 k e) (int 0) (int 0) ''X''
     = (playing [[''X'', '' '', '' ''], ['' '', '' '', '' ''], ['' '', '' '', '' '']] ''O'' 1 k e, Return True)"
  by (simp add: make_move_eval)

lemma move_2:
  "make_move (playing [[''X'', '' '', '' ''], ['' '', '' '', '' ''], ['' '', '' '', '' '']] ''O'' 1 k e) (int 1) (int 1) ''O''
     = (playing [[''X'', '' '', '' ''], ['' '', ''O'', '' ''], ['' '', '' '', '' '']] ''X'' 2 k e, Return True)"
  by (simp add: make_move_eval)

lemma move_3:
  "make_move (playing [[''X'', '' '', '' ''], ['' '', ''O'', '' ''], ['' '', '' '', '' '']] ''X'' 2 k e) (int 0) (int 1) ''X''
     = (playing [[''X'', ''X'', '' ''], ['' '', ''O'', '' ''], ['' '', '' '', '' '']] ''O'' 3 k e, Return True)"
  by (simp add: make_move_eval)

lemma move_4:
  "make_move (playing [[''X'', ''X'', '' ''], ['' '', ''O'', '' ''], ['' '', '' '', '' '']] ''O'' 3 k e) (int 0) (int 2) ''O''
     = (playing [[''X'', ''X'', ''O''], ['' '', ''O'', '' ''], ['' '', '' '', '' '']] ''X'' 4 k e, Return True)"
  by (simp add: make_move_eval)

lemma move_5:
  "make_move (playing [[''X'', ''X'', ''O''], ['' '', ''O'', '' ''], ['' '', '' '', '' '']] ''X'' 4 k e) (int 2) (int 0) ''X''
     = (playing [[''X'', ''X'', ''O''], ['' '', ''O'', '' ''], [''X'', '' '', '' '']] ''O'' 5 k e, Return True)"
  by (simp add: make_move_eval)

lemma move_6:
  "make_move (playing [[''X'', ''X'', ''O''], ['' '', ''O'', '' ''], [''X'', '' '', '' '']] ''O'' 5 k e) (int 1) (int 0) ''O''
     = (playing [[''X'', ''X'', ''O''], [''O'', ''O'', '' ''], [''X'', '' '', '' '']] ''X'' 6 k e, Return True)"
  by (simp add: make_move_eval)

lemma move_7:
  "make_move (playing [[''X'', ''X'', ''O''], [''O'', ''O'', '' ''], [''X'', '' '', '' '']] ''X'' 6 k e) (int 1) (int 2) ''X''
     = (playing [[''X'', ''X'', ''O''], [''O'', ''O'', ''X''], [''X'', '' '', '' '']] ''O'' 7 k e, Return True)"
  by (simp add: make_move_eval)

lemma move_8:
  "make_move (playing [[''X'', ''X'', ''O''], [''O'', ''O'', ''X''], [''X'', '' '', '' '']] ''O'' 7 k e) (int 2) (int 1) ''O''
     = (playing [[''X'', ''X'', ''O''], [''O'', ''O'', ''X''], [''X'', ''O'', '' '']] ''X'' 8 k e, Return True)"
  by (simp add: make_move_eval)

lemma move_9:
  "make_move (playing [[''X'', ''X'', ''O''], [''O'', ''O'', ''X''], [''X'', ''O'', '' '']] ''X'' 8 k e) (int 2) (int 2) ''X''
     = ((playing [[''X'', ''X'', ''O''], [''O'', ''O'', ''X''], [''X'', ''O'', ''X'']] ''O'' 9 k e)\<lparr>game_over := True, draws := 1\<rparr>, Return True)"
  by (simp add: make_move_eval)


section \<open>Claims about the result of the search\<close>

text \<open>
  C1: on every 3-by-3 board, with fuel above the number of empty cells, \<open>minimax\<close>
  started with the full window \<open>(-inf, +inf)\<close> returns, and its score and best move
  are exactly those of plain exhaustive minimax on that board.
\<close>

theorem pruning_preserves_result:
  assumes "wf_board (board g)" "length (get_empty_cells (board g)) < n"
  shows "\<exists>g' r. minimax n g depth is_maximizing NegInf PosInf = Some (g', r)
           \<and> plain_minimax n (board g) depth is_maximizing = Some r"
proof -
  obtain p where p: "plain_minimax n (board g) depth is_maximizing = Some p"
    using plain_minimax_total[OF assms] by blast
  then have "alphabeta n (board g) depth is_maximizing NegInf PosInf = Some p"
    by (rule alphabeta_full_window)
  then show ?thesis
    using minimax_returns[OF assms, of depth is_maximizing NegInf PosInf] p by auto
qed

theorem pruning_preserves_result_witness:
  "\<exists>g' r. minimax 10 init_game 0 True NegInf PosInf = Some (g', r)
     \<and> plain_minimax 10 (board init_game) 0 True = Some r"
proof -
  have wf: "wf_board (board init_game)" by code_simp
  have n: "length (get_empty_cells (board init_game)) < 10" by code_simp
  show ?thesis using pruning_preserves_result[OF wf n] by simp
qed

text \<open>
  C5: on the board whose top row is \<open>[X, X, ' ']\<close> and whose other cells are empty, the
  minimizing call \<open>minimax(0, False)\<close>, which moves for \<open>'X'\<close>, returns the move
  \<open>(0, 2)\<close> with score \<open>-9\<close>, the score of a win of \<open>'X'\<close> one ply below the root; that
  move completes the top row.  Fuel eight is enough.
\<close>

theorem immediate_win_found:
  assumes "board g = [[''X'', ''X'', '' ''], ['' '', '' '', '' ''], ['' '', '' '', '' '']]"
    and "7 < n"
  shows "(\<exists>g'. minimax n g 0 False NegInf PosInf = Some (g', Fin (- 9), Some (0, 2)))
         \<and> check_winner (set_cell (board g) 0 2 ''X'') ''X''"
proof -
  define m where "m = n - 8"
  have n: "n = Suc (Suc (Suc (Suc (Suc (Suc (Suc (Suc m)))))))"
    using assms(2) by (simp add: m_def)
  have "alphabeta n (board g) 0 False NegInf PosInf = Some (Fin (- 9), Some (0, 2))"
    unfolding n assms(1) using top_row_search[of m, unfolded unfold_grid] by simp
  then have "\<exists>g'. minimax n g 0 False NegInf PosInf = Some (g', Fin (- 9), Some (0, 2))"
    using minimax_from_alphabeta by blast
  moreover have "check_winner (set_cell (board g) 0 2 ''X'') ''X''"
    unfolding assms(1) by (simp add: set_cell_def check_winner_lines[unfolded grid_def] line3_eval)
  ultimately show ?thesis by simp
qed

theorem immediate_win_found_witness:
  "(\<exists>g'. minimax 8
      (init_game\<lparr>board := [[''X'', ''X'', '' ''], ['' '', '' '', '' ''], ['' '', '' '', '' '']]\<rparr>)
      0 False NegInf PosInf = Some (g', Fin (- 9), Some (0, 2)))
   \<and> check_winner (set_cell
        (board (init_game\<lparr>board := [[''X'', ''X'', '' ''], ['' '', '' '', '' ''], ['' '', '' '', '' '']]\<rparr>))
        0 2 ''X'') ''X''"
proof -
  have b: "board (init_game\<lparr>board := [[''X'', ''X'', '' ''], ['' '', '' '', '' ''], ['' '', '' '', '' '']]\<rparr>)
             = [[''X'', ''X'', '' ''], ['' '', '' '', '' ''], ['' '', '' '', '' '']]"
    by simp
  have n: "(7 :: nat) < 8" by simp
  show ?thesis by (rule immediate_win_found[OF b n])
qed

text \<open>
  C2: from the empty board with \<open>'X'\<close> to move, when each player in turn plays the move
  that \<open>minimax\<close> returns for it (the minimizing call for \<open>'X'\<close>, the maximizing call for
  \<open>'O'\<close>) and the move is applied with \<open>make_move\<close>, the game ends after nine moves as a
  draw: the game is over, there is no winner and the draw tally is one.  Ten turns of
  play and fuel ten for each search are enough.
\<close>

theorem optimal_self_play_draws:
  assumes "9 < turns" "9 < fuel"
  shows "\<exists>g. self_play turns fuel init_game = Some g \<and> game_over g \<and> winner g = None
           \<and> draws g = 1 \<and> player_wins g = 0 \<and> ai_wins g = 0 \<and> moves_made g = 9
           \<and> board g = [[''X'', ''X'', ''O''], [''O'', ''O'', ''X''], [''X'', ''O'', ''X'']]"
proof -
  define t where "t = turns - 10"
  define m where "m = fuel - 10"
  have t: "turns = Suc (Suc (Suc (Suc (Suc (Suc (Suc (Suc (Suc (Suc (t))))))))))"
    using assms(1) by (simp add: t_def)
  have m: "fuel = Suc (Suc (Suc (Suc (Suc (Suc (Suc (Suc (Suc (Suc (m))))))))))"
    using assms(2) by (simp add: m_def)
  from self_play_step_X[OF play_1[of m, unfolded unfold_grid] move_1]
  obtain k1 e1 where s1:
    "self_play (Suc (Suc (Suc (Suc (Suc (Suc (Suc (Suc (Suc (Suc (t))))))))))) fuel (playing [['' '', '' '', '' ''], ['' '', '' '', '' ''], ['' '', '' '', '' '']] ''X'' 0 0 0)
       = self_play (Suc (Suc (Suc (Suc (Suc (Suc (Suc (Suc (Suc (t)))))))))) fuel (playing [[''X'', '' '', '' ''], ['' '', '' '', '' ''], ['' '', '' '', '' '']] ''O'' 1 k1 e1)"
    unfolding m by blast
  from self_play_step_O[OF play_2[of m, unfolded unfold_grid] move_2]
  obtain k2 e2 where s2:
    "self_play (Suc (Suc (Suc (Suc (Suc (Suc (Suc (Suc (Suc (t)))))))))) fuel (playing [[''X'', '' '', '' ''], ['' '', '' '', '' ''], ['' '', '' '', '' '']] ''O'' 1 k1 e1)
       = self_play (Suc (Suc (Suc (Suc (Suc (Suc (Suc (Suc (t))))))))) fuel (playing [[''X'', '' '', '' ''], ['' '', ''O'', '' ''], ['' '', '' '', '' '']] ''X'' 2 k2 e2)"
    unfolding m by blast
  from self_play_step_X[OF play_3[of m, unfolded unfold_grid] move_3]
  obtain k3 e3 where s3:
    "self_play (Suc (Suc (Suc (Suc (Suc (Suc (Suc (Suc (t))))))))) fuel (playing [[''X'', '' '', '' ''], ['' '', ''O'', '' ''], ['' '', '' '', '' '']] ''X'' 2 k2 e2)
       = self_play (Suc (Suc (Suc (Suc (Suc (Suc (Suc (t)))))))) fuel (playing [[''X'', ''X'', '' ''], ['' '', ''O'', '' ''], ['' '', '' '', '' '']] ''O'' 3 k3 e3)"
    unfolding m by blast
  from self_play_step_O[OF play_4[of m, unfolded unfold_grid] move_4]
  obtain k4 e4 where s4:
    "self_play (Suc (Suc (Suc (Suc (Suc (Suc (Suc (t)))))))) fuel (playing [[''X'', ''X'', '' ''], ['' '', ''O'', '' ''], ['' '', '' '', '' '']] ''O'' 3 k3 e3)
       = self_play (Suc (Suc (Suc (Suc (Suc (Suc (t))))))) fuel (playing [[''X'', ''X'', ''O''], ['' '', ''O'', '' ''], ['' '', '' '', '' '']] ''X'' 4 k4 e4)"
    unfolding m by blast
  from self_play_step_X[OF play_5[of m, unfolded unfold_grid] move_5]
  obtain k5 e5 where s5:
    "self_play (Suc (Suc (Suc (Suc (Suc (Suc (t))))))) fuel (playing [[''X'', ''X'', ''O''], ['' '', ''O'', '' ''], ['' '', '' '', '' '']] ''X'' 4 k4 e4)
       = self_play (Suc (Suc (Suc (Suc (Suc (t)))))) fuel (playing [[''X'', ''X'', ''O''], ['' '', ''O'', '' ''], [''X'', '' '', '' '']] ''O'' 5 k5 e5)"
    unfolding m by blast
  from self_play_step_O[OF play_6[of m, unfolded unfold_grid] move_6]
  obtain k6 e6 where s6:
    "self_play (Suc (Suc (Suc (Suc (Suc (t)))))) fuel (playing [[''X'', ''X'', ''O''], ['' '', ''O'', '' ''], [''X'', '' '', '' '']] ''O'' 5 k5 e5)
       = self_play (Suc (Suc (Suc (Suc (t))))) fuel (playing [[''X'', ''X'', ''O''], [''O'', ''O'', '' ''], [''X'', '' '', '' '']] ''X'' 6 k6 e6)"
    unfolding m by blast
  from self_play_step_X[OF play_7[of m, unfolded unfold_grid] move_7]
  obtain k7 e7 where s7:
    "self_play (Suc (Suc (Suc (Suc (t))))) fuel (playing [[''X'', ''X'', ''O''], [''O'', ''O'', '' ''], [''X'', '' '', '' '']] ''X'' 6 k6 e6)
       = self_play (Suc (Suc (Suc (t)))) fuel (playing [[''X'', ''X'', ''O''], [''O'', ''O'', ''X''], [''X'', '' '', '' '']] ''O'' 7 k7 e7)"
    unfolding m by blast
  from self_play_step_O[OF play_8[of m, unfolded unfold_grid] move_8]
  obtain k8 e8 where s8:
    "self_play (Suc (Suc (Suc (t)))) fuel (playing [[''X'', ''X'', ''O''], [''O'', ''O'', ''X''], [''X'', '' '', '' '']] ''O'' 7 k7 e7)
       = self_play (Suc (Suc (t))) fuel (playing [[''X'', ''X'', ''O''], [''O'', ''O'', ''X''], [''X'', ''O'', '' '']] ''X'' 8 k8 e8)"
    unfolding m by blast
  from self_play_step_X[OF play_9[of m, unfolded unfold_grid] move_9]
  obtain k9 e9 where s9:
    "self_play (Suc (Suc (t))) fuel (playing [[''X'', ''X'', ''O''], [''O'', ''O'', ''X''], [''X'', ''O'', '' '']] ''X'' 8 k8 e8)
       = self_play (Suc (t)) fuel ((playing [[''X'', ''X'', ''O''], [''O'', ''O'', ''X''], [''X'', ''O'', ''X'']] ''O'' 9 k9 e9)\<lparr>game_over := True, draws := 1\<rparr>)"
    unfolding m by blast
  have "self_play turns fuel init_game
          = Some ((playing [[''X'', ''X'', ''O''], [''O'', ''O'', ''X''], [''X'', ''O'', ''X'']] ''O'' 9 k9 e9)\<lparr>game_over := True, draws := 1\<rparr>)"
    unfolding t init_game_playing s1 s2 s3 s4 s5 s6 s7 s8 s9 by (simp add: playing_def)
  then show ?thesis by (simp add: playing_def)
qed

theorem optimal_self_play_draws_witness:
  "\<exists>g. self_play 10 10 init_game = Some g \<and> game_over g \<and> winner g = None
     \<and> draws g = 1 \<and> player_wins g = 0 \<and> ai_wins g = 0 \<and> moves_made g = 9
     \<and> board g = [[''X'', ''X'', ''O''], [''O'', ''O'', ''X''], [''X'', ''O'', ''X'']]"
proof -
  have t: "(9 :: nat) < 10" by simp
  show ?thesis by (rule optimal_self_play_draws[OF t t])
qed

end
